theory Spec2Isabelle
  imports Main "HOL-Library.Word"
begin

section \<open>The remembered-set engine of G1 (g1RemSet.cpp)\<close>

text \<open>
  A shallow embedding of \<^verbatim>\<open>hotspot/src/share/vm/gc_implementation/g1/g1RemSet.cpp\<close>.
  Heap addresses (\<^verbatim>\<open>HeapWord*\<close>) are word indices of type \<open>nat\<close>; a card pointer
  (\<^verbatim>\<open>jbyte*\<close> into the card table) is the index of its byte. The card table is an
  explicit store from card indices to card values. Every function threads the collector
  state and appends the externally visible actions it performs (stores to the card table,
  fences, calls into collaborators) to a trace, in program order.

  HotSpot's \<^verbatim>\<open>assert\<close> is compiled out of product builds; the model is the product
  build, and each assertion is recorded as a comment at its place. \<^verbatim>\<open>guarantee\<close> is
  always checked and is a \<open>None\<close> result. Timing calls (\<^verbatim>\<open>os::elapsedTime\<close>, phase
  times) and logging are left out.
\<close>

subsection \<open>Data model\<close>

text \<open>Card values (spec section 3): the byte of a card is one of these.\<close>

datatype card_val = CLEAN | DIRTY | YOUNG | CLAIMED

definition clean_card_val :: card_val where
  "clean_card_val = CLEAN"

definition dirty_card_val :: card_val where
  "dirty_card_val = DIRTY"

text \<open>Region types (spec section 3).\<close>

datatype region_type = FREE | YOUNG_REGION | OLD | HUMONGOUS | HUMONGOUS_CONT

text \<open>\<^verbatim>\<open>MemRegion\<close>: a half-open range of heap words, \<open>(start, end)\<close>.\<close>

type_synonym mem_region = "nat \<times> nat"

definition MemRegion_sz :: "nat \<Rightarrow> nat \<Rightarrow> mem_region" where
  \<comment> \<open>the constructor \<^verbatim>\<open>MemRegion(start, word_size)\<close>\<close>
  "MemRegion_sz start word_size = (start, start + word_size)"

definition mr_start :: "mem_region \<Rightarrow> nat" where
  "mr_start mr = fst mr"

definition mr_end :: "mem_region \<Rightarrow> nat" where
  "mr_end mr = snd mr"

definition mr_word_size :: "mem_region \<Rightarrow> nat" where
  "mr_word_size mr = snd mr - fst mr"

definition mr_is_empty :: "mem_region \<Rightarrow> bool" where
  "mr_is_empty mr = (mr_word_size mr = 0)"

text \<open>
  Modelled from the spec: \<^verbatim>\<open>MemRegion::intersection\<close> (memRegion.hpp is not part of the
  sources at hand). The spec's step "Intersect \<^verbatim>\<open>[card.start, card.end)\<close> with
  \<^verbatim>\<open>[r'.bottom(), r'.scan_top())\<close>": the common part of two ranges, the empty range
  \<open>(0, 0)\<close> when they do not overlap.
\<close>

definition mr_intersection :: "mem_region \<Rightarrow> mem_region \<Rightarrow> mem_region" where
  "mr_intersection a b =
     (let res_start = max (mr_start a) (mr_start b);
          res_end = min (mr_end a) (mr_end b)
      in if res_start < res_end then (res_start, res_end) else (0, 0))"

definition mr_contains :: "mem_region \<Rightarrow> mem_region \<Rightarrow> bool" where
  \<comment> \<open>\<^verbatim>\<open>MemRegion::contains(const MemRegion)\<close>\<close>
  "mr_contains a b = (mr_start a \<le> mr_start b \<and> mr_end b \<le> mr_end a)"

text \<open>
  The scan iterator of a region's remembered set. Modelled from the spec:
  \<^verbatim>\<open>HeapRegionRemSet\<close> (heapRegionRemSet.cpp is not part of the sources at hand). Spec
  section 3: the iteration has two terminal bits, \<^emph>\<open>claimed\<close> and \<^emph>\<open>complete\<close>;
  section 5: \<^verbatim>\<open>claim_iter()\<close> is a single CAS from unclaimed to claimed;
  \<^verbatim>\<open>iter_claimed_next(block)\<close> returns monotonically increasing claim offsets. The
  remembered set itself is the sequence of card indices its iterator yields.
\<close>

datatype iter_state = Unclaimed | Claimed | Complete

record heap_region_rem_set =
  rs_cards :: "nat list"
  rs_iter_state :: iter_state
  rs_iter_claimed :: nat

record heap_region =
  hr_type :: region_type
  hr_bottom :: nat
  hr_top :: nat
  hr_scan_top :: nat
  hr_end :: nat
  hr_in_collection_set :: bool
  hr_on_dirty_cards_region_list :: bool
  hr_rem_set :: heap_region_rem_set

text \<open>
  Modelled from the spec: \<^verbatim>\<open>HeapRegion::is_old_or_humongous\<close> (heapRegion.hpp is not
  part of the sources at hand); spec 4.1 step 3, "OLD-or-HUMONGOUS".
\<close>

definition is_old_or_humongous :: "heap_region \<Rightarrow> bool" where
  "is_old_or_humongous r = (hr_type r \<in> {OLD, HUMONGOUS, HUMONGOUS_CONT})"

text \<open>The actions a thread performs, in program order.\<close>

datatype event =
    CardStore nat card_val
  | FullFence
  | OopsOnCard bool nat mem_region "nat option"
  | LockSharedDirtyCardQ
  | UnlockSharedDirtyCardQ
  | EnqueueShared nat
  | EnqueueIntoCSet nat
  | TrimQueuePartially
  | HotCardInsert nat
  | ClaimIter nat
  | IterClaimedNext nat nat
  | SetIterComplete nat
  | PushDirtyCardsRegion nat
  | ScanMemRegion nat mem_region
  | StrongCodeRoots nat
  | CleanUpCardTable

text \<open>
  \<^verbatim>\<open>CardStore c v\<close>: a store of \<open>v\<close> into the byte of card \<open>c\<close>.
  \<^verbatim>\<open>OopsOnCard in_gc r mr cl\<close>: the call
  \<^verbatim>\<open>r->oops_on_card_seq_iterate_careful<in_gc>(mr, cl)\<close>, with the push closure the
  oop closure was built from (\<open>None\<close> on the concurrent path).
  \<^verbatim>\<open>ScanMemRegion r mr\<close>: \<^verbatim>\<open>HeapRegionDCTOC::do_MemRegion(mr)\<close> for region \<open>r\<close>.
\<close>

text \<open>
  The state this file works on. Of the dirty card queue sets, \<open>completed_buffers\<close>
  are the completed buffers of \<^verbatim>\<open>JavaThread::dirty_card_queue_set()\<close> and
  \<open>dirty_card_logs\<close> the threads' logs of that set, \<open>into_cset_buffers\<close> the buffers
  of \<^verbatim>\<open>_g1->into_cset_dirty_card_queue_set()\<close>, and \<open>deferred_rs_update_buffers\<close>
  those of \<^verbatim>\<open>_g1->dirty_card_queue_set()\<close>.
\<close>

record g1_state =
  card_table :: "nat \<Rightarrow> card_val"
  regions :: "nat \<Rightarrow> heap_region"
  use_cache :: bool
  hot_cache :: "nat list"
  conc_refine_cards :: "64 word"
  cset_rs_update_cl :: "nat option list"
  cards_scanned :: "64 word list option"
  total_cards_scanned :: "64 word"
  shared_dirty_card_queue :: "nat list"
  dirty_card_logs :: "nat list list"
  completed_buffers :: "nat list"
  into_cset_buffers :: "nat list"
  deferred_rs_update_buffers :: "nat list"
  refine_cte_cl_concurrency :: bool
  evacuation_failed :: bool
  trace :: "event list"

text \<open>
  What one call of \<^verbatim>\<open>oops_on_card_seq_iterate_careful\<close> (heapRegion.cpp, a
  collaborator) does, as far as this file can see it: whether the card could be parsed,
  the remembered-set insertions the oop closure made (target region, source card),
  whether the closure saw a reference into the collection set, and the stores other
  threads made to the card table while the iteration ran.
\<close>

record iter_outcome =
  card_processed :: bool
  rs_entries :: "(nat \<times> nat) list"
  has_refs_into_cset :: bool
  concurrent_stores :: "(nat \<times> card_val) list"

text \<open>
  The collaborators, as parameters: the card table's address conversion, the region
  lookup, the card size, the block offset table's address conversion and card size, the
  hot card cache's \<^verbatim>\<open>insert\<close> (result and new cache
  contents), the object iteration, the scan block size flag and the order in which a
  worker visits the collection set.
\<close>

record ext =
  addr_for :: "nat \<Rightarrow> nat"
  heap_region_containing :: "nat \<Rightarrow> nat"
  card_size_in_words :: nat
  address_for_index :: "nat \<Rightarrow> nat"
  N_words :: nat
  hot_insert :: "nat list \<Rightarrow> nat \<Rightarrow> nat option \<times> nat list"
  oops_on_card_seq_iterate_careful :: "bool \<Rightarrow> g1_state \<Rightarrow> nat \<Rightarrow> mem_region \<Rightarrow> iter_outcome"
  G1RSetScanBlockSize :: int
  collection_set_from :: "nat \<Rightarrow> nat list"

definition emit :: "event list \<Rightarrow> g1_state \<Rightarrow> g1_state" where
  "emit es s = s\<lparr>trace := trace s @ es\<rparr>"

definition store_card :: "nat \<Rightarrow> card_val \<Rightarrow> g1_state \<Rightarrow> g1_state" where
  \<comment> \<open>\<^verbatim>\<open>*card_ptr = v\<close>\<close>
  "store_card c v s = emit [CardStore c v] (s\<lparr>card_table := (card_table s)(c := v)\<rparr>)"

text \<open>\<^verbatim>\<open>PerRegionRS.add\<close>: idempotent insertion (spec section 3).\<close>

definition rs_add :: "nat \<Rightarrow> heap_region_rem_set \<Rightarrow> heap_region_rem_set" where
  "rs_add c rs = (if c \<in> set (rs_cards rs) then rs else rs\<lparr>rs_cards := rs_cards rs @ [c]\<rparr>)"

definition add_reference :: "nat \<times> nat \<Rightarrow> g1_state \<Rightarrow> g1_state" where
  "add_reference e s =
     (let r = regions s (fst e)
      in s\<lparr>regions := (regions s)(fst e := r\<lparr>hr_rem_set := rs_add (snd e) (hr_rem_set r)\<rparr>)\<rparr>)"

definition other_store :: "nat \<times> card_val \<Rightarrow> g1_state \<Rightarrow> g1_state" where
  \<comment> \<open>a store by another thread: it changes the card table and is not this thread's action\<close>
  "other_store w s = s\<lparr>card_table := (card_table s)(fst w := snd w)\<rparr>"

definition apply_outcome :: "iter_outcome \<Rightarrow> g1_state \<Rightarrow> g1_state" where
  "apply_outcome out s = fold other_store (concurrent_stores out) (fold add_reference (rs_entries out) s)"

subsection \<open>Concurrent refinement: \<^verbatim>\<open>G1RemSet::refine_card_concurrently\<close>\<close>

text \<open>
  The function is split at line 539 of the source: \<open>conc_filters\<close> is everything up to
  the last early return (the filters), \<open>conc_process\<close> is the rest (clean, fence,
  iterate, redirty or count). A filter result \<open>(s', None)\<close> is an early return in state
  \<open>s'\<close>; \<open>(s', Some (card_ptr, start, r, scan_limit))\<close> carries the local variables on.
\<close>

definition conc_trim :: "g1_state \<Rightarrow> nat \<Rightarrow> nat \<Rightarrow> nat \<Rightarrow> g1_state \<times> (nat \<times> nat \<times> nat \<times> nat) option" where
  "conc_trim s card_ptr start r =
     (let scan_limit = hr_top (regions s r)
      in if scan_limit \<le> start then (s, None)
         else (s, Some (card_ptr, start, r, scan_limit)))"

definition conc_filters :: "ext \<Rightarrow> g1_state \<Rightarrow> nat \<Rightarrow> g1_state \<times> (nat \<times> nat \<times> nat \<times> nat) option" where
  "conc_filters X s card_ptr =
     \<comment> \<open>assert(!_g1->is_gc_active()); check_card_ptr\<close>
     (if card_table s card_ptr \<noteq> dirty_card_val then (s, None)
      else
        let start = addr_for X card_ptr;
            r = heap_region_containing X start
        in if \<not> is_old_or_humongous (regions s r) then (s, None)
           else if use_cache s then
             (let orig_card_ptr = card_ptr;
                  (res, cache') = hot_insert X (hot_cache s) card_ptr;
                  s1 = emit [HotCardInsert card_ptr] (s\<lparr>hot_cache := cache'\<rparr>)
              in case res of
                   None \<Rightarrow> (s1, None)
                 | Some card_ptr' \<Rightarrow>
                     if card_ptr' \<noteq> orig_card_ptr then
                       (let start' = addr_for X card_ptr';
                            r' = heap_region_containing X start'
                        in if \<not> is_old_or_humongous (regions s1 r') then (s1, None)
                           else conc_trim s1 card_ptr' start' r')
                     else conc_trim s1 card_ptr' start r)
           else conc_trim s card_ptr start r)"

definition redirty_and_enqueue :: "nat \<Rightarrow> g1_state \<Rightarrow> g1_state" where
  \<comment> \<open>lines 572-577: the store, then the enqueue inside the scope of the MutexLockerEx\<close>
  "redirty_and_enqueue card_ptr s =
     (let s1 = store_card card_ptr dirty_card_val s;
          s2 = emit [LockSharedDirtyCardQ] s1;
          s3 = emit [EnqueueShared card_ptr]
                 (s2\<lparr>shared_dirty_card_queue := shared_dirty_card_queue s2 @ [card_ptr]\<rparr>)
      in emit [UnlockSharedDirtyCardQ] s3)"

definition conc_iterate :: "ext \<Rightarrow> g1_state \<Rightarrow> nat \<times> nat \<times> nat \<times> nat \<Rightarrow> iter_outcome \<times> g1_state" where
  \<comment> \<open>lines 542-561: clean the card, fence, iterate over the objects on the card\<close>
  "conc_iterate X s t =
     (case t of (card_ptr, start, r, scan_limit) \<Rightarrow>
        let s1 = store_card card_ptr clean_card_val s;
            s2 = emit [FullFence] s1;
            end' = start + card_size_in_words X;
            dirty_region = (start, min scan_limit end');
            \<comment> \<open>assert(!dirty_region.is_empty())\<close>
            out = oops_on_card_seq_iterate_careful X False s2 r dirty_region
        in (out, apply_outcome out (emit [OopsOnCard False r dirty_region None] s2)))"

definition conc_process :: "ext \<Rightarrow> g1_state \<Rightarrow> nat \<times> nat \<times> nat \<times> nat \<Rightarrow> g1_state" where
  \<comment> \<open>lines 542-581\<close>
  "conc_process X s t =
     (case t of (card_ptr, start, r, scan_limit) \<Rightarrow>
        let (out, s3) = conc_iterate X s t
        in if \<not> card_processed out then
             (if card_table s3 card_ptr \<noteq> dirty_card_val then redirty_and_enqueue card_ptr s3
              else s3)
           else s3\<lparr>conc_refine_cards := conc_refine_cards s3 + 1\<rparr>)"

definition refine_card_concurrently :: "ext \<Rightarrow> g1_state \<Rightarrow> nat \<Rightarrow> g1_state" where
  "refine_card_concurrently X s card_ptr =
     (case conc_filters X s card_ptr of
        (s', None) \<Rightarrow> s'
      | (s', Some t) \<Rightarrow> conc_process X s' t)"

subsection \<open>Refinement in a pause: \<^verbatim>\<open>G1RemSet::refine_card_during_gc\<close>\<close>

definition gc_filters :: "ext \<Rightarrow> g1_state \<Rightarrow> nat \<Rightarrow> (nat \<times> nat \<times> nat \<times> nat) option" where
  "gc_filters X s card_ptr =
     \<comment> \<open>assert(_g1->is_gc_active()); check_card_ptr\<close>
     (if card_table s card_ptr \<noteq> dirty_card_val then None
      else
        let start = addr_for X card_ptr;
            r = heap_region_containing X start
        in if \<not> is_old_or_humongous (regions s r) then None
           else if hr_in_collection_set (regions s r) then None
           else let scan_limit = hr_scan_top (regions s r)
                in if scan_limit \<le> start then None
                   else Some (card_ptr, start, r, scan_limit))"

definition closure_of_worker :: "g1_state \<Rightarrow> nat \<Rightarrow> nat option" where
  \<comment> \<open>\<^verbatim>\<open>_cset_rs_update_cl[worker_i]\<close>; a worker id outside the array reads no closure\<close>
  "closure_of_worker s worker_i =
     (if worker_i < length (cset_rs_update_cl s) then cset_rs_update_cl s ! worker_i else None)"

definition gc_iterate :: "ext \<Rightarrow> g1_state \<Rightarrow> nat \<Rightarrow> nat \<times> nat \<times> nat \<times> nat \<Rightarrow> iter_outcome \<times> g1_state" where
  \<comment> \<open>lines 657-677\<close>
  "gc_iterate X s worker_i t =
     (case t of (card_ptr, start, r, scan_limit) \<Rightarrow>
        let s1 = store_card card_ptr clean_card_val s;
            end' = start + card_size_in_words X;
            dirty_region = (start, min scan_limit end');
            \<comment> \<open>assert(!dirty_region.is_empty())\<close>
            oops_in_heap_closure = closure_of_worker s1 worker_i;
            out = oops_on_card_seq_iterate_careful X True s1 r dirty_region
        in (out, apply_outcome out (emit [OopsOnCard True r dirty_region oops_in_heap_closure] s1)))"

definition gc_process :: "ext \<Rightarrow> g1_state \<Rightarrow> nat \<Rightarrow> nat \<times> nat \<times> nat \<times> nat \<Rightarrow> bool \<times> g1_state" where
  \<comment> \<open>lines 657-682\<close>
  "gc_process X s worker_i t =
     (let (out, s2) = gc_iterate X s worker_i t
        \<comment> \<open>assert(card_processed)\<close>
      in (has_refs_into_cset out, s2\<lparr>conc_refine_cards := conc_refine_cards s2 + 1\<rparr>))"

definition refine_card_during_gc :: "ext \<Rightarrow> g1_state \<Rightarrow> nat \<Rightarrow> nat \<Rightarrow> bool \<times> g1_state" where
  "refine_card_during_gc X s card_ptr worker_i =
     (case gc_filters X s card_ptr of
        None \<Rightarrow> (False, s)
      | Some t \<Rightarrow> gc_process X s worker_i t)"

subsection \<open>The scanner: \<^verbatim>\<open>ScanRSClosure\<close> and \<^verbatim>\<open>G1RemSet::scanRS\<close>\<close>

text \<open>
  Modelled from the spec: the card table's claim operations
  (g1SATBCardTableModRefBS.hpp is not part of the sources at hand). Spec section 6:
  \<^verbatim>\<open>is_dirty(idx)\<close>, \<^verbatim>\<open>atomic_set_claimed(idx)\<close>; section 4.3 step 4: "atomically set
  the card's CLAIMED bit. If it was already CLAIMED, skip." A single-byte store.
\<close>

definition is_card_dirty :: "g1_state \<Rightarrow> nat \<Rightarrow> bool" where
  "is_card_dirty s card_index = (card_table s card_index = DIRTY)"

definition is_card_claimed :: "g1_state \<Rightarrow> nat \<Rightarrow> bool" where
  "is_card_claimed s card_index = (card_table s card_index = CLAIMED)"

definition set_card_claimed :: "nat \<Rightarrow> g1_state \<Rightarrow> g1_state" where
  "set_card_claimed card_index s = store_card card_index CLAIMED s"

definition upd_rem_set :: "nat \<Rightarrow> (heap_region_rem_set \<Rightarrow> heap_region_rem_set) \<Rightarrow> g1_state \<Rightarrow> g1_state" where
  "upd_rem_set r f s =
     s\<lparr>regions := (regions s)(r := (regions s r)\<lparr>hr_rem_set := f (hr_rem_set (regions s r))\<rparr>)\<rparr>"

text \<open>
  Modelled from the spec: the iterator operations of \<^verbatim>\<open>HeapRegionRemSet\<close>
  (see the data model). A failed CAS in \<open>claim_iter\<close> changes nothing.
\<close>

definition iter_is_complete :: "g1_state \<Rightarrow> nat \<Rightarrow> bool" where
  "iter_is_complete s r = (rs_iter_state (hr_rem_set (regions s r)) = Complete)"

definition claim_iter :: "nat \<Rightarrow> g1_state \<Rightarrow> bool \<times> g1_state" where
  "claim_iter r s =
     (if rs_iter_state (hr_rem_set (regions s r)) = Unclaimed
      then (True, emit [ClaimIter r] (upd_rem_set r (\<lambda>rs. rs\<lparr>rs_iter_state := Claimed\<rparr>) s))
      else (False, s))"

definition set_iter_complete :: "nat \<Rightarrow> g1_state \<Rightarrow> g1_state" where
  "set_iter_complete r s =
     emit [SetIterComplete r] (upd_rem_set r (\<lambda>rs. rs\<lparr>rs_iter_state := Complete\<rparr>) s)"

definition iter_claimed_next :: "nat \<Rightarrow> nat \<Rightarrow> g1_state \<Rightarrow> nat \<times> g1_state" where
  "iter_claimed_next r step s =
     (let old = rs_iter_claimed (hr_rem_set (regions s r))
      in (old, emit [IterClaimedNext r old]
                 (upd_rem_set r (\<lambda>rs. rs\<lparr>rs_iter_claimed := old + step\<rparr>) s)))"

text \<open>
  \<^verbatim>\<open>G1CollectedHeap::push_dirty_cards_region\<close> (a collaborator): the region is put on
  the dirty cards region list, which is what \<^verbatim>\<open>is_on_dirty_cards_region_list\<close> reads.
\<close>

definition push_dirty_cards_region :: "nat \<Rightarrow> g1_state \<Rightarrow> g1_state" where
  "push_dirty_cards_region r s =
     emit [PushDirtyCardsRegion r]
       (s\<lparr>regions := (regions s)(r := (regions s r)\<lparr>hr_on_dirty_cards_region_list := True\<rparr>)\<rparr>)"

record scan_rs_closure =
  cl_cards_done :: "64 word"
  cl_cards :: "64 word"
  cl_oc :: nat
  cl_worker_i :: nat
  cl_block_size :: nat
  cl_try_claimed :: bool

definition ScanRSClosure :: "ext \<Rightarrow> nat \<Rightarrow> nat \<Rightarrow> scan_rs_closure" where
  \<comment> \<open>the constructor; \<^verbatim>\<open>_block_size = MAX2<int>(G1RSetScanBlockSize, 1)\<close>: the flag is
      an \<^verbatim>\<open>intx\<close> and is narrowed to a 32-bit \<^verbatim>\<open>int\<close> before the maximum is taken\<close>
  "ScanRSClosure X oc worker_i =
     \<lparr>cl_cards_done = 0, cl_cards = 0, cl_oc = oc, cl_worker_i = worker_i,
      cl_block_size = nat (max (sint (word_of_int (G1RSetScanBlockSize X) :: 32 word)) 1),
      cl_try_claimed = False\<rparr>"

definition set_try_claimed :: "scan_rs_closure \<Rightarrow> scan_rs_closure" where
  "set_try_claimed cl = cl\<lparr>cl_try_claimed := True\<rparr>"

definition scanCard :: "ext \<Rightarrow> nat \<Rightarrow> nat \<Rightarrow> scan_rs_closure \<times> g1_state \<Rightarrow> scan_rs_closure \<times> g1_state" where
  "scanCard X index r cs =
     (case cs of (cl, s) \<Rightarrow>
        let card_region = MemRegion_sz (address_for_index X index) (N_words X);
            pre_gc_allocated = (hr_bottom (regions s r), hr_scan_top (regions s r));
            mr = mr_intersection pre_gc_allocated card_region
        in if \<not> mr_is_empty mr \<and> \<not> is_card_claimed s index then
             (let s1 = set_card_claimed index s;
                  cl1 = cl\<lparr>cl_cards_done := cl_cards_done cl + 1\<rparr>
              in (cl1, emit [ScanMemRegion r mr] s1))
           else (cl, s))"

definition scan_strong_code_roots :: "nat \<Rightarrow> g1_state \<Rightarrow> g1_state" where
  "scan_strong_code_roots r s = emit [StrongCodeRoots r, TrimQueuePartially] s"

text \<open>
  The loop of \<^verbatim>\<open>doHeapRegion\<close> (lines 203-226) over the cards the iterator yields:
  \<open>current_card\<close> counts them, \<open>jump_to_card\<close> is the start of the block this worker
  holds. \<open>per_card_work\<close> is the part of the loop body that a card of the worker's block
  reaches (lines 208-225).
\<close>

definition per_card_work :: "ext \<Rightarrow> nat \<Rightarrow> scan_rs_closure \<times> g1_state \<Rightarrow> scan_rs_closure \<times> g1_state" where
  "per_card_work X card_index cs =
     (case cs of (cl, s1) \<Rightarrow>
        let card_start = address_for_index X card_index;
            card_region = heap_region_containing X card_start;
            cl1 = cl\<lparr>cl_cards := cl_cards cl + 1\<rparr>;
            s2 = (if \<not> hr_on_dirty_cards_region_list (regions s1 card_region)
                  then push_dirty_cards_region card_region s1 else s1)
        in if \<not> hr_in_collection_set (regions s2 card_region) \<and> \<not> is_card_dirty s2 card_index
           then scanCard X card_index card_region (cl1, s2)
           else (cl1, s2))"

fun scan_cards :: "ext \<Rightarrow> nat \<Rightarrow> nat \<Rightarrow> nat list \<Rightarrow> nat \<Rightarrow> nat \<Rightarrow> scan_rs_closure \<times> g1_state
                    \<Rightarrow> scan_rs_closure \<times> g1_state" where
  "scan_cards X r block_size [] current_card jump_to_card cs = cs"
| "scan_cards X r block_size (card_index # rest) current_card jump_to_card cs =
     (case cs of (cl, s) \<Rightarrow>
        let (jump_to_card', s1) =
              (if current_card \<ge> jump_to_card + block_size then iter_claimed_next r block_size s
               else (jump_to_card, s))
        in if current_card < jump_to_card'
           then scan_cards X r block_size rest (current_card + 1) jump_to_card' (cl, s1)
           else scan_cards X r block_size rest (current_card + 1) jump_to_card'
                  (per_card_work X card_index (cl, s1)))"

definition doHeapRegion_body :: "ext \<Rightarrow> scan_rs_closure \<Rightarrow> g1_state \<Rightarrow> nat \<Rightarrow> bool \<times> scan_rs_closure \<times> g1_state" where
  \<comment> \<open>lines 191-233\<close>
  "doHeapRegion_body X cl s r =
     (let s1 = push_dirty_cards_region r s;
          cards = rs_cards (hr_rem_set (regions s1 r));
          (jump_to_card, s2) = iter_claimed_next r (cl_block_size cl) s1;
          (cl', s3) = scan_cards X r (cl_block_size cl) cards 0 jump_to_card (cl, s2)
      in if \<not> cl_try_claimed cl'
         then (False, cl', set_iter_complete r (scan_strong_code_roots r s3))
         else (False, cl', s3))"

definition doHeapRegion :: "ext \<Rightarrow> scan_rs_closure \<Rightarrow> g1_state \<Rightarrow> nat \<Rightarrow> bool \<times> scan_rs_closure \<times> g1_state" where
  "doHeapRegion X cl s r =
     \<comment> \<open>assert(r->in_collection_set())\<close>
     (if iter_is_complete s r then (False, cl, s)
      else if \<not> cl_try_claimed cl then
        (case claim_iter r s of (claimed, s1) \<Rightarrow>
           if \<not> claimed then (False, cl, s1) else doHeapRegion_body X cl s1 r)
      else doHeapRegion_body X cl s r)"

text \<open>
  Modelled from the spec: \<^verbatim>\<open>G1CollectedHeap::collection_set_iterate_from\<close>
  (g1CollectedHeap.cpp is not part of the sources at hand); spec section 6,
  \<^verbatim>\<open>iterate_collection_set_from(worker, closure)\<close>: the closure is applied to the
  regions of the collection set, in the order the worker visits them, until it
  returns true.
\<close>

fun collection_set_iterate :: "ext \<Rightarrow> nat list \<Rightarrow> scan_rs_closure \<times> g1_state \<Rightarrow> scan_rs_closure \<times> g1_state" where
  "collection_set_iterate X [] cs = cs"
| "collection_set_iterate X (r # rs) cs =
     (case cs of (cl, s) \<Rightarrow>
        case doHeapRegion X cl s r of (stop, cl', s') \<Rightarrow>
          if stop then (cl', s') else collection_set_iterate X rs (cl', s'))"

definition collection_set_iterate_from :: "ext \<Rightarrow> nat \<Rightarrow> scan_rs_closure \<times> g1_state \<Rightarrow> scan_rs_closure \<times> g1_state" where
  "collection_set_iterate_from X worker_i cs = collection_set_iterate X (collection_set_from X worker_i) cs"

definition scanRS :: "ext \<Rightarrow> nat \<Rightarrow> nat \<Rightarrow> g1_state \<Rightarrow> g1_state option" where
  \<comment> \<open>the store to \<^verbatim>\<open>_cards_scanned[worker_i]\<close> needs the array and a slot in it\<close>
  "scanRS X oc worker_i s =
     (let scanRScl = ScanRSClosure X oc worker_i;
          (cl1, s1) = collection_set_iterate_from X worker_i (scanRScl, s);
          cl2 = set_try_claimed cl1;
          (cl3, s2) = collection_set_iterate_from X worker_i (cl2, s1)
      in \<comment> \<open>assert(_cards_scanned != NULL)\<close>
         case cards_scanned s2 of
           None \<Rightarrow> None
         | Some a \<Rightarrow>
             if worker_i < length a
             then Some (s2\<lparr>cards_scanned := Some (a[worker_i := cl_cards_done cl3])\<rparr>)
             else None)"

subsection \<open>Updating remembered sets in a pause, and the pause lifecycle\<close>

definition do_card_ptr :: "ext \<Rightarrow> nat \<Rightarrow> nat \<Rightarrow> g1_state \<Rightarrow> bool \<times> g1_state" where
  \<comment> \<open>\<^verbatim>\<open>RefineRecordRefsIntoCSCardTableEntryClosure::do_card_ptr\<close>\<close>
  "do_card_ptr X card_ptr worker_i s =
     (case refine_card_during_gc X s card_ptr worker_i of
        (True, s1) \<Rightarrow>
          (True, emit [EnqueueIntoCSet card_ptr]
                   ((emit [TrimQueuePartially] s1)
                      \<lparr>into_cset_buffers := into_cset_buffers s1 @ [card_ptr]\<rparr>))
      | (False, s1) \<Rightarrow> (True, s1))"

text \<open>
  Modelled from the spec: \<^verbatim>\<open>G1CollectedHeap::iterate_dirty_card_closure\<close>
  (g1CollectedHeap.cpp is not part of the sources at hand); spec 4.4, "drains completed
  buffers by applying refine_in_pause to each card". A buffer is taken off the list
  before its cards are processed.
\<close>

fun apply_closure_to_cards :: "ext \<Rightarrow> nat \<Rightarrow> nat list \<Rightarrow> g1_state \<Rightarrow> g1_state" where
  "apply_closure_to_cards X worker_i [] s = s"
| "apply_closure_to_cards X worker_i (card_ptr # rest) s =
     (case do_card_ptr X card_ptr worker_i s of
        (continue, s1) \<Rightarrow> if continue then apply_closure_to_cards X worker_i rest s1 else s1)"

definition updateRS :: "ext \<Rightarrow> nat \<Rightarrow> g1_state \<Rightarrow> g1_state" where
  "updateRS X worker_i s =
     apply_closure_to_cards X worker_i (completed_buffers s) (s\<lparr>completed_buffers := []\<rparr>)"

definition n_workers :: "g1_state \<Rightarrow> nat" where
  \<comment> \<open>the constructor allocates \<^verbatim>\<open>_cset_rs_update_cl\<close> with \<^verbatim>\<open>n_workers()\<close> slots\<close>
  "n_workers s = length (cset_rs_update_cl s)"

definition G1RemSet_ctor :: "nat \<Rightarrow> g1_state \<Rightarrow> g1_state option" where
  \<comment> \<open>lines 74-90: \<^verbatim>\<open>guarantee(n_workers() > 0)\<close>, every slot NULL\<close>
  "G1RemSet_ctor n s =
     (if n > 0
      then Some (s\<lparr>conc_refine_cards := 0, cset_rs_update_cl := replicate n None,
                  cards_scanned := None, total_cards_scanned := 0\<rparr>)
      else None)"

definition oops_into_collection_set_do :: "ext \<Rightarrow> nat \<Rightarrow> nat \<Rightarrow> g1_state \<Rightarrow> g1_state option" where
  \<comment> \<open>\<^verbatim>\<open>assert(worker_i < n_workers())\<close>: a store outside the array has no defined result\<close>
  "oops_into_collection_set_do X oc worker_i s =
     (if \<not> worker_i < n_workers s then None
      else
        let s1 = s\<lparr>cset_rs_update_cl := (cset_rs_update_cl s)[worker_i := Some oc]\<rparr>;
            s2 = updateRS X worker_i s1
        in case scanRS X oc worker_i s2 of
             None \<Rightarrow> None
           | Some s3 \<Rightarrow> Some (s3\<lparr>cset_rs_update_cl := (cset_rs_update_cl s3)[worker_i := None]\<rparr>))"

text \<open>
  Modelled from the spec: \<^verbatim>\<open>DirtyCardQueueSet::concatenate_logs\<close>; spec 4.4,
  "concatenates all per-thread dirty-card logs into the completed-buffer list".
\<close>

definition concatenate_logs :: "g1_state \<Rightarrow> g1_state" where
  "concatenate_logs s =
     s\<lparr>completed_buffers := completed_buffers s @ concat (dirty_card_logs s),
       dirty_card_logs := map (\<lambda>_. []) (dirty_card_logs s)\<rparr>"

definition prepare_for_oops_into_collection_set_do :: "g1_state \<Rightarrow> g1_state option" where
  "prepare_for_oops_into_collection_set_do s =
     (let s1 = concatenate_logs (s\<lparr>refine_cte_cl_concurrency := False\<rparr>)
      in \<comment> \<open>guarantee(_cards_scanned == NULL)\<close>
         if cards_scanned s1 \<noteq> None then None
         else Some (s1\<lparr>cards_scanned := Some (replicate (n_workers s1) 0),
                      total_cards_scanned := 0\<rparr>))"

text \<open>
  Modelled from the spec: \<^verbatim>\<open>G1CollectedHeap::cleanUpCardTable\<close> (g1CollectedHeap.cpp is
  not part of the sources at hand); spec 4.4, "resets the card table to CLEAN", and the
  caller's comment "Set all cards back to clean."
\<close>

definition cleanUpCardTable :: "g1_state \<Rightarrow> g1_state" where
  "cleanUpCardTable s = emit [CleanUpCardTable] (s\<lparr>card_table := (\<lambda>_. clean_card_val)\<rparr>)"

text \<open>
  Modelled from the spec: \<^verbatim>\<open>DirtyCardQueueSet::merge_bufferlists\<close> and \<^verbatim>\<open>clear\<close>;
  spec 4.4, "splices the into-CSet completed-buffer list into the main dirty-card
  queue", "clears the into-CSet queue". The receiver at line 381 is
  \<^verbatim>\<open>_g1->dirty_card_queue_set()\<close>, the queue set of the deferred remembered-set
  updates (\<open>deferred_rs_update_buffers\<close>); it is not
  \<^verbatim>\<open>JavaThread::dirty_card_queue_set()\<close>, whose completed buffers
  (\<open>completed_buffers\<close>) \<open>prepare\<close> fills and \<open>updateRS\<close> drains.
\<close>

definition merge_bufferlists :: "g1_state \<Rightarrow> g1_state" where
  "merge_bufferlists s =
     s\<lparr>deferred_rs_update_buffers := deferred_rs_update_buffers s @ into_cset_buffers s,
       into_cset_buffers := []\<rparr>"

definition clear_into_cset :: "g1_state \<Rightarrow> g1_state" where
  "clear_into_cset s = s\<lparr>into_cset_buffers := []\<rparr>"

definition cleanup_after_oops_into_collection_set_do :: "g1_state \<Rightarrow> g1_state option" where
  "cleanup_after_oops_into_collection_set_do s =
     \<comment> \<open>guarantee(_cards_scanned != NULL)\<close>
     (case cards_scanned s of
        None \<Rightarrow> None
      | Some a \<Rightarrow>
          let total = fold (\<lambda>i acc. acc + a ! i) [0..<n_workers s] 0;
              s1 = s\<lparr>total_cards_scanned := total, cards_scanned := None,
                     refine_cte_cl_concurrency := True\<rparr>;
              s2 = cleanUpCardTable s1;
              s3 = (if evacuation_failed s2 then merge_bufferlists s2 else s2)
          in Some (clear_into_cset s3))"

text \<open>
  Modelled from the spec: the pause as its caller runs it (the caller is not part of the
  sources at hand); spec 4.4: \<open>prepare\<close>, then for each worker
  \<^verbatim>\<open>oops_into_collection_set(worker, evac_closure, ...)\<close>, then \<open>cleanup_after\<close>.
  The workers' calls are taken one after the other, each given as (closure, worker id).
\<close>

fun run_workers :: "ext \<Rightarrow> (nat \<times> nat) list \<Rightarrow> g1_state \<Rightarrow> g1_state option" where
  "run_workers X [] s = Some s"
| "run_workers X (c # cs) s =
     (case oops_into_collection_set_do X (fst c) (snd c) s of
        None \<Rightarrow> None
      | Some s' \<Rightarrow> run_workers X cs s')"

definition pause :: "ext \<Rightarrow> (nat \<times> nat) list \<Rightarrow> g1_state \<Rightarrow> g1_state option" where
  "pause X calls s =
     (case prepare_for_oops_into_collection_set_do s of
        None \<Rightarrow> None
      | Some s1 \<Rightarrow>
          (case run_workers X calls s1 of
             None \<Rightarrow> None
           | Some s2 \<Rightarrow> cleanup_after_oops_into_collection_set_do s2))"


subsection \<open>Rebuilding remembered sets: \<^verbatim>\<open>G1RebuildRemSetHeapRegionClosure\<close>\<close>

text \<open>
  What the rebuild reads: of an object (named by its address) its size in words and
  whether it is an object array; of the mark bitmap whether an address is marked; of the
  region the start of the block an address lies in. Sizes and byte counts are
  \<^verbatim>\<open>size_t\<close>; they are bounded by the size of a region and are natural numbers here.
\<close>

record rebuild_heap =
  obj_size :: "nat \<Rightarrow> nat"
  is_objArray :: "nat \<Rightarrow> bool"
  isMarked :: "nat \<Rightarrow> bool"
  block_start :: "nat \<Rightarrow> nat"

record rb_region =
  rb_hrm_index :: nat
  rb_type :: region_type
  rb_bottom :: nat
  rb_end :: nat
  rb_humongous_start_bottom :: nat
  rb_next_top_at_mark_start :: nat

text \<open>
  Modelled from the spec: \<^verbatim>\<open>HeapRegion::isHumongous\<close> (heapRegion.hpp is not part of
  the sources at hand); spec section 3, the region types HUMONGOUS and HUMONGOUS-CONT.
\<close>

definition isHumongous :: "rb_region \<Rightarrow> bool" where
  "isHumongous hr = (rb_type hr \<in> {HUMONGOUS, HUMONGOUS_CONT})"

definition HeapWordSize :: nat where
  \<comment> \<open>bytes in a heap word (a 64-bit VM)\<close>
  "HeapWordSize = 8"

definition mr_byte_size :: "mem_region \<Rightarrow> nat" where
  "mr_byte_size mr = mr_word_size mr * HeapWordSize"

datatype rebuild_event = OopIterate nat | OopIterateIn nat mem_region

text \<open>
  \<^verbatim>\<open>OopIterate obj\<close>: \<^verbatim>\<open>obj->oop_iterate(&_update_cl)\<close>;
  \<^verbatim>\<open>OopIterateIn obj mr\<close>: \<^verbatim>\<open>obj->oop_iterate(&_update_cl, mr)\<close>. The update closure
  inserts into remembered sets; the rebuild makes no other insertion.
\<close>

text \<open>
  Modelled from the spec: \<^verbatim>\<open>CMBitMap::getNextMarkedWordAddress\<close> (concurrentMark.hpp is
  not part of the sources at hand); spec section 6, \<^verbatim>\<open>next_marked(addr, limit)\<close>: the
  first marked address from \<open>addr\<close> on and below \<open>limit\<close>, or \<open>limit\<close>.
\<close>

function getNextMarkedWordAddress :: "(nat \<Rightarrow> bool) \<Rightarrow> nat \<Rightarrow> nat \<Rightarrow> nat" where
  "getNextMarkedWordAddress bm addr limit =
     (if addr < limit
      then (if bm addr then addr else getNextMarkedWordAddress bm (addr + 1) limit)
      else limit)"
  by pat_completeness auto
termination
  by (relation "measure (\<lambda>(bm, addr, limit). limit - addr)") auto

definition scan_for_references :: "rebuild_heap \<Rightarrow> nat \<Rightarrow> mem_region \<Rightarrow> nat \<times> rebuild_event list" where
  "scan_for_references H obj mr =
     (let obj_size = obj_size H obj
      in if \<not> is_objArray H obj \<or> mr_contains mr (MemRegion_sz obj obj_size)
         then (obj_size, [OopIterate obj])
         else (mr_word_size (mr_intersection mr (MemRegion_sz obj obj_size)), [OopIterateIn obj mr]))"

definition is_humongous_live :: "rebuild_heap \<Rightarrow> nat \<Rightarrow> nat \<Rightarrow> nat \<Rightarrow> bool" where
  "is_humongous_live H humongous_obj tams tars = (isMarked H humongous_obj \<or> tars > tams)"

text \<open>\<^verbatim>\<open>LiveObjIterator\<close>: its state is \<open>_current\<close>; bitmap, TAMS and \<open>_mr\<close> are fixed.\<close>

definition is_below_tams :: "nat \<Rightarrow> nat \<Rightarrow> bool" where
  "is_below_tams tams current = (current < tams)"

definition is_live :: "rebuild_heap \<Rightarrow> nat \<Rightarrow> nat \<Rightarrow> nat \<Rightarrow> bool" where
  "is_live H tams current obj = (\<not> is_below_tams tams current \<or> isMarked H obj)"

definition bitmap_limit :: "nat \<Rightarrow> mem_region \<Rightarrow> nat" where
  "bitmap_limit tams mr = min tams (mr_end mr)"

definition has_next :: "mem_region \<Rightarrow> nat \<Rightarrow> bool" where
  "has_next mr current = (current < mr_end mr)"

definition move_if_below_tams :: "rebuild_heap \<Rightarrow> nat \<Rightarrow> mem_region \<Rightarrow> nat \<Rightarrow> nat" where
  "move_if_below_tams H tams mr current =
     (if is_below_tams tams current \<and> has_next mr current
      then getNextMarkedWordAddress (isMarked H) current (bitmap_limit tams mr)
      else current)"

definition LiveObjIterator :: "rebuild_heap \<Rightarrow> nat \<Rightarrow> mem_region \<Rightarrow> nat \<Rightarrow> nat" where
  \<comment> \<open>the constructor; \<^verbatim>\<open>assert(_current <= _mr.start())\<close>\<close>
  "LiveObjIterator H tams mr first_oop_into_mr =
     (let current = first_oop_into_mr
      in if is_live H tams current current then
           (if current < mr_start mr \<and> \<not> is_objArray H current
            then move_if_below_tams H tams mr (current + obj_size H current)
            else current)
         else getNextMarkedWordAddress (isMarked H) current (bitmap_limit tams mr))"

definition move_to_next :: "rebuild_heap \<Rightarrow> nat \<Rightarrow> mem_region \<Rightarrow> nat \<Rightarrow> nat" where
  "move_to_next H tams mr current = move_if_below_tams H tams mr (current + obj_size H current)"

text \<open>
  The \<^verbatim>\<open>for\<close> loop of \<^verbatim>\<open>rebuild_rem_set_in_region\<close> (lines 875-881). When
  \<^verbatim>\<open>move_to_next\<close> does not advance the iterator, the loop repeats the same step for
  ever: the result is \<open>None\<close>.
\<close>

function live_obj_loop :: "rebuild_heap \<Rightarrow> nat \<Rightarrow> mem_region \<Rightarrow> nat \<Rightarrow> nat \<Rightarrow> rebuild_event list
                           \<Rightarrow> (nat \<times> rebuild_event list) option" where
  "live_obj_loop H top_at_mark_start mr current marked_words evs =
     (if has_next mr current then
        (let obj = current;
             (scanned_size, es) = scan_for_references H obj mr;
             marked_words' = (if obj < top_at_mark_start then marked_words + scanned_size
                              else marked_words);
             current' = move_to_next H top_at_mark_start mr current
         in if current' \<le> current then None
            else live_obj_loop H top_at_mark_start mr current' marked_words' (evs @ es))
      else Some (marked_words, evs))"
  by pat_completeness auto
termination
  by (relation "measure (\<lambda>(H, tams, mr, current, mw, evs). mr_end mr - current)")
     (auto simp: has_next_def)

definition rebuild_rem_set_in_region :: "rebuild_heap \<Rightarrow> nat \<Rightarrow> nat \<Rightarrow> rb_region \<Rightarrow> mem_region
                                       \<Rightarrow> (nat \<times> rebuild_event list) option" where
  "rebuild_rem_set_in_region H top_at_mark_start top_at_rebuild_start hr mr =
     (if isHumongous hr then
        (let humongous_obj = rb_humongous_start_bottom hr
         in if is_humongous_live H humongous_obj top_at_mark_start top_at_rebuild_start then
              \<comment> \<open>assert(hr->top() == top_at_mark_start || hr->top() == top_at_rebuild_start)\<close>
              Some ((if top_at_mark_start \<noteq> rb_bottom hr then mr_byte_size mr else 0),
                    [OopIterateIn humongous_obj mr])
            else Some (0, []))
      else
        (case live_obj_loop H top_at_mark_start mr
                (LiveObjIterator H top_at_mark_start mr (block_start H (mr_start mr))) 0 [] of
           None \<Rightarrow> None
         | Some (marked_words, evs) \<Rightarrow> Some (marked_words * HeapWordSize, evs)))"

text \<open>
  The marking controller as the rebuild of one region sees it: \<open>cm_has_aborted t\<close> and
  \<open>cm_top_at_rebuild_start t idx\<close> are what \<^verbatim>\<open>has_aborted()\<close> and
  \<^verbatim>\<open>top_at_rebuild_start(idx)\<close> return after \<open>t\<close> yield checks.
\<close>

record cm_view =
  cm_has_aborted :: "nat \<Rightarrow> bool"
  cm_top_at_rebuild_start :: "nat \<Rightarrow> nat \<Rightarrow> nat option"

text \<open>
  How \<^verbatim>\<open>doHeapRegion\<close> leaves: by one of its early returns, or past the loop. Past the
  loop it holds \<open>total_marked_bytes\<close>, the value its final assertion compares with
  \<^verbatim>\<open>hr->next_marked_bytes()\<close> unless \<^verbatim>\<open>top_at_rebuild_start(region_idx)\<close> is NULL.
\<close>

datatype rebuild_exit = AbortedAtEntry | EagerlyReclaimed | AbortedAfterChunk | PastLoop

record rebuild_result =
  rr_return :: bool
  rr_exit :: rebuild_exit
  rr_total_marked_bytes :: nat
  rr_final_tars :: "nat option"
  rr_events :: "rebuild_event list"

function rebuild_chunks :: "rebuild_heap \<Rightarrow> cm_view \<Rightarrow> rb_region \<Rightarrow> nat \<Rightarrow> nat \<Rightarrow> nat \<Rightarrow> nat \<Rightarrow> nat
                            \<Rightarrow> rebuild_event list \<Rightarrow> rebuild_result option" where
  "rebuild_chunks H cm hr top_at_mark_start chunk_size_in_words cur t total_marked_bytes evs =
     (let past_loop = Some \<lparr>rr_return = cm_has_aborted cm t, rr_exit = PastLoop,
                            rr_total_marked_bytes = total_marked_bytes,
                            rr_final_tars = cm_top_at_rebuild_start cm t (rb_hrm_index hr),
                            rr_events = evs\<rparr>
      in if cur < rb_end hr then
           (case cm_top_at_rebuild_start cm t (rb_hrm_index hr) of
              None \<Rightarrow> Some \<lparr>rr_return = False, rr_exit = EagerlyReclaimed,
                            rr_total_marked_bytes = total_marked_bytes, rr_final_tars = None,
                            rr_events = evs\<rparr>
            | Some top_at_rebuild_start \<Rightarrow>
                let next_chunk = mr_intersection (rb_bottom hr, top_at_rebuild_start)
                                   (MemRegion_sz cur chunk_size_in_words)
                in if mr_is_empty next_chunk then past_loop
                   else
                     (case rebuild_rem_set_in_region H top_at_mark_start top_at_rebuild_start hr
                             next_chunk of
                        None \<Rightarrow> None
                      | Some (marked_bytes, es) \<Rightarrow>
                          let total_marked_bytes' =
                                (if marked_bytes > 0 then total_marked_bytes + marked_bytes
                                 else total_marked_bytes);
                              cur' = cur + chunk_size_in_words;
                              t' = t + 1
                          in if cm_has_aborted cm t' then
                               Some \<lparr>rr_return = True, rr_exit = AbortedAfterChunk,
                                     rr_total_marked_bytes = total_marked_bytes',
                                     rr_final_tars = cm_top_at_rebuild_start cm t' (rb_hrm_index hr),
                                     rr_events = evs @ es\<rparr>
                             else rebuild_chunks H cm hr top_at_mark_start chunk_size_in_words
                                    cur' t' total_marked_bytes' (evs @ es)))
         else past_loop)"
  by pat_completeness auto
termination
  by (relation "measure (\<lambda>(H, cm, hr, tams, chunk, cur, t, total, evs). rb_end hr - cur)")
     (auto simp: mr_is_empty_def mr_word_size_def mr_intersection_def MemRegion_sz_def
                 mr_start_def mr_end_def Let_def split: if_splits)

definition rebuild_doHeapRegion :: "nat \<Rightarrow> rebuild_heap \<Rightarrow> cm_view \<Rightarrow> rb_region \<Rightarrow> rebuild_result option" where
  \<comment> \<open>\<^verbatim>\<open>G1RebuildRemSetHeapRegionClosure::doHeapRegion\<close>, given the flag G1RebuildRemSetChunkSize\<close>
  "rebuild_doHeapRegion G1RebuildRemSetChunkSize H cm hr =
     (if cm_has_aborted cm 0 then
        Some \<lparr>rr_return = True, rr_exit = AbortedAtEntry, rr_total_marked_bytes = 0,
              rr_final_tars = cm_top_at_rebuild_start cm 0 (rb_hrm_index hr), rr_events = []\<rparr>
      else
        let total_marked_bytes = 0;
            chunk_size_in_words = G1RebuildRemSetChunkSize div HeapWordSize;
            top_at_mark_start = rb_next_top_at_mark_start hr;
            cur = rb_bottom hr
        in rebuild_chunks H cm hr top_at_mark_start chunk_size_in_words cur 0 total_marked_bytes [])"



subsection \<open>Concrete configurations\<close>

text \<open>
  Modelled from the spec: a hot card cache (g1HotCardCache.cpp is not part of the sources
  at hand); spec section 3: "On \<^verbatim>\<open>insert(c)\<close>, if there is headroom, returns null
  (retain \<open>c\<close> lazily). Otherwise returns an evicted card \<open>c'\<close> (possibly \<open>c\<close> itself)";
  scenario 3: with capacity 2, inserting 10, 20, 30 returns null, null, 10.
\<close>

definition hot_insert_fifo :: "nat \<Rightarrow> nat list \<Rightarrow> nat \<Rightarrow> nat option \<times> nat list" where
  "hot_insert_fifo capacity cache c =
     (if length cache < capacity then (None, cache @ [c])
      else (case cache @ [c] of x # rest \<Rightarrow> (Some x, rest) | [] \<Rightarrow> (Some c, [])))"

text \<open>
  The heap of the spec's scenarios: regions of 1 MB (131072 words), cards of 512 bytes
  (64 words), every region old with 4096 words allocated; \<open>ex_region_lab\<close> is a region
  whose \<open>scan_top\<close> lies below its \<open>top\<close>.
\<close>

definition ex_region :: "nat \<Rightarrow> heap_region" where
  "ex_region i =
     \<lparr>hr_type = OLD, hr_bottom = i * 131072, hr_top = i * 131072 + 4096,
      hr_scan_top = i * 131072 + 4096, hr_end = (i + 1) * 131072,
      hr_in_collection_set = False, hr_on_dirty_cards_region_list = False,
      hr_rem_set = \<lparr>rs_cards = [], rs_iter_state = Unclaimed, rs_iter_claimed = 0\<rparr>\<rparr>"

definition ex_state :: g1_state where
  "ex_state =
     \<lparr>card_table = (\<lambda>c. if c = 3 then DIRTY else CLEAN), regions = ex_region,
      use_cache = False, hot_cache = [], conc_refine_cards = 0,
      cset_rs_update_cl = [None, None], cards_scanned = None, total_cards_scanned = 0,
      shared_dirty_card_queue = [], dirty_card_logs = [], completed_buffers = [],
      into_cset_buffers = [], deferred_rs_update_buffers = [],
      refine_cte_cl_concurrency = True, evacuation_failed = False, trace = []\<rparr>"

text \<open>
  The same heap in a pause: worker 0 holds push closure 7; every region is in the
  collection set or not, as \<open>in_cset\<close> says, and has the given \<open>scan_top\<close>.
\<close>

definition ex_state_gc :: "bool \<Rightarrow> nat \<Rightarrow> g1_state" where
  "ex_state_gc in_cset scan_top =
     ex_state\<lparr>regions := (\<lambda>i. (ex_region i)\<lparr>hr_in_collection_set := in_cset,
                                              hr_scan_top := scan_top\<rparr>),
              cset_rs_update_cl := [Some 7, None]\<rparr>"

text \<open>
  The spec's scenario 3: the hot card cache is in use and holds cards 10 and 20; cards
  10, 20 and 30 are dirty.
\<close>

definition ex_state_hot :: g1_state where
  "ex_state_hot =
     ex_state\<lparr>card_table := (\<lambda>c. if c = 10 \<or> c = 20 \<or> c = 30 then DIRTY else CLEAN),
              use_cache := True, hot_cache := [10, 20]\<rparr>"

text \<open>
  The spec's scenario 4: region 2 is in the collection set and its remembered set names
  cards 3, 5, 5 and 4100 (the last one lies in region 2 itself); card 3 is dirty; the
  pause has been prepared for two workers.
\<close>

definition ex_state_scan :: g1_state where
  "ex_state_scan =
     ex_state\<lparr>regions := (\<lambda>i. if i = 2
                 then (ex_region 2)\<lparr>hr_in_collection_set := True,
                        hr_rem_set := \<lparr>rs_cards = [3, 5, 5, 4100], rs_iter_state = Unclaimed,
                                       rs_iter_claimed = 0\<rparr>\<rparr>
                 else ex_region i),
              cards_scanned := Some [0, 0]\<rparr>"

text \<open>
  The same heap once another worker has claimed the iterator of region 2 and has not
  finished it.
\<close>

definition ex_state_claimed :: g1_state where
  "ex_state_claimed =
     ex_state\<lparr>regions := (\<lambda>i. if i = 2
                 then (ex_region 2)\<lparr>hr_in_collection_set := True,
                        hr_rem_set := \<lparr>rs_cards = [3, 5, 5, 4100], rs_iter_state = Claimed,
                                       rs_iter_claimed = 0\<rparr>\<rparr>
                 else ex_region i),
              cards_scanned := Some [0, 0]\<rparr>"

text \<open>
  The heap of scenario 4 before the pause is prepared: card 3 is in a completed buffer,
  card 6 in a thread's log.
\<close>

definition ex_state_pause :: g1_state where
  "ex_state_pause =
     ex_state_scan\<lparr>cards_scanned := None, completed_buffers := [3], dirty_card_logs := [[6]]\<rparr>"

definition ex_outcome :: "bool \<Rightarrow> (nat \<times> card_val) list \<Rightarrow> iter_outcome" where
  "ex_outcome parsable stores =
     \<lparr>card_processed = parsable, rs_entries = (if parsable then [(1, 3)] else []),
      has_refs_into_cset = False, concurrent_stores = stores\<rparr>"

text \<open>
  The collaborators of the scenarios; the object iteration reports the card parsable or
  not, as \<open>parsable\<close> says, while other threads make the stores \<open>stores\<close>.
\<close>

definition ex_ext :: "bool \<Rightarrow> (nat \<times> card_val) list \<Rightarrow> ext" where
  "ex_ext parsable stores =
     \<lparr>addr_for = (\<lambda>c. c * 64), heap_region_containing = (\<lambda>a. a div 131072),
      card_size_in_words = 64, address_for_index = (\<lambda>c. c * 64), N_words = 64,
      hot_insert = hot_insert_fifo 2,
      oops_on_card_seq_iterate_careful = (\<lambda>in_gc s r mr. ex_outcome parsable stores),
      G1RSetScanBlockSize = 2, collection_set_from = (\<lambda>w. [2])\<rparr>"


text \<open>
  A humongous start region for the rebuild, region 5 at words 0 to 32 with the given
  TAMS, and a heap whose humongous object, of 20 words, is marked or not as \<open>marked\<close>
  says.
\<close>

definition ex_humongous_region :: "nat \<Rightarrow> rb_region" where
  "ex_humongous_region tams =
     \<lparr>rb_hrm_index = 5, rb_type = HUMONGOUS, rb_bottom = 0, rb_end = 32,
      rb_humongous_start_bottom = 0, rb_next_top_at_mark_start = tams\<rparr>"

definition ex_humongous_heap :: "bool \<Rightarrow> rebuild_heap" where
  "ex_humongous_heap marked =
     \<lparr>obj_size = (\<lambda>a. 20), is_objArray = (\<lambda>a. True), isMarked = (\<lambda>a. marked \<and> a = 0),
      block_start = (\<lambda>a. 0)\<rparr>"

subsection \<open>The objects of a region, for the rebuild\<close>

text \<open>
  A region's contents as the list of its objects, in address order: of each object its
  size in words, whether it is an object array, and whether the bitmap marks it.
\<close>

record heap_obj =
  o_size :: nat
  o_is_array :: bool
  o_marked :: bool

text \<open>
  \<open>laid_out H os p\<close>: the heap \<open>H\<close> holds the objects \<open>os\<close> one after the other from
  address \<open>p\<close> on: sizes, kinds and marks are those of the list, the bitmap has no mark
  inside an object, and \<open>block_start\<close> of an address inside an object is the object's
  start.
\<close>

fun laid_out :: "rebuild_heap \<Rightarrow> heap_obj list \<Rightarrow> nat \<Rightarrow> bool" where
  "laid_out H [] p = True"
| "laid_out H (ob # os) p =
     (obj_size H p = o_size ob \<and> is_objArray H p = o_is_array ob \<and> isMarked H p = o_marked ob
      \<and> (\<forall>a. p < a \<and> a < p + o_size ob \<longrightarrow> \<not> isMarked H a)
      \<and> (\<forall>a. p \<le> a \<and> a < p + o_size ob \<longrightarrow> block_start H a = p)
      \<and> laid_out H os (p + o_size ob))"

text \<open>\<open>boundary os p x\<close>: \<open>x\<close> is the start of one of the objects \<open>os\<close> laid out from \<open>p\<close>,
  or their end.\<close>

fun boundary :: "heap_obj list \<Rightarrow> nat \<Rightarrow> nat \<Rightarrow> bool" where
  "boundary [] p x = (x = p)"
| "boundary (ob # os) p x = (x = p \<or> boundary os (p + o_size ob) x)"

text \<open>
  Modelled from the spec: \<^verbatim>\<open>HeapRegion::next_marked_bytes\<close>, the value marking
  recorded for the region (heapRegion.hpp and concurrentMark.cpp are not part of the
  sources at hand); spec 4.6 and P5, the bytes of the marked objects below TAMS. It is
  counted from the objects, not from the rebuild: for the objects \<open>os\<close> laid out
  from \<open>p\<close>, \<open>marked_words\<close> is the number of words of those that start below TAMS
  and are marked; a humongous region holds a part of one object, which starts at the
  bottom of its start region and is \<^verbatim>\<open>obj_size\<close> words long: if that object is marked,
  the words of the object that lie in the region below TAMS.
\<close>

fun marked_words :: "heap_obj list \<Rightarrow> nat \<Rightarrow> nat \<Rightarrow> nat" where
  "marked_words [] p tams = 0"
| "marked_words (ob # os) p tams =
     (if p < tams \<and> o_marked ob then o_size ob else 0) + marked_words os (p + o_size ob) tams"

definition humongous_marked_words :: "rebuild_heap \<Rightarrow> rb_region \<Rightarrow> nat" where
  "humongous_marked_words H hr =
     (let obj = rb_humongous_start_bottom hr
      in if isMarked H obj
         then mr_word_size (mr_intersection (rb_bottom hr, rb_next_top_at_mark_start hr)
                                            (MemRegion_sz obj (obj_size H obj)))
         else 0)"

definition next_marked_bytes :: "rebuild_heap \<Rightarrow> heap_obj list \<Rightarrow> rb_region \<Rightarrow> nat" where
  "next_marked_bytes H os hr =
     (if isHumongous hr then humongous_marked_words H hr * HeapWordSize
      else marked_words os (rb_bottom hr) (rb_next_top_at_mark_start hr) * HeapWordSize)"

text \<open>
  \<open>counted_words os p tams x\<close>: of the marked objects below TAMS among \<open>os\<close>, laid out
  from \<open>p\<close>, the words the rebuild has counted once its chunks have covered the region
  up to \<open>x\<close>: an object array by the part below \<open>x\<close>, any other object whole as soon as
  it starts below \<open>x\<close>.
\<close>

fun counted_words :: "heap_obj list \<Rightarrow> nat \<Rightarrow> nat \<Rightarrow> nat \<Rightarrow> nat" where
  "counted_words [] p tams x = 0"
| "counted_words (ob # os) p tams x =
     (if p < tams \<and> o_marked ob
      then (if o_is_array ob then min (p + o_size ob) x - min p x
            else if p < x then o_size ob else 0)
      else 0)
     + counted_words os (p + o_size ob) tams x"

text \<open>
  \<open>walk_words H os p tams mr\<close>: the words the loop over the live objects adds to
  \<open>marked_words\<close> for the objects \<open>os\<close>, laid out from \<open>p\<close>, that start below the end of
  \<open>mr\<close>.
\<close>

fun walk_words :: "rebuild_heap \<Rightarrow> heap_obj list \<Rightarrow> nat \<Rightarrow> nat \<Rightarrow> mem_region \<Rightarrow> nat" where
  "walk_words H [] p tams mr = 0"
| "walk_words H (ob # os) p tams mr =
     (if mr_end mr \<le> p then 0
      else (if p < tams \<and> o_marked ob then fst (scan_for_references H p mr) else 0)
           + walk_words H os (p + o_size ob) tams mr)"

text \<open>
  \<open>rebuild_wf H os hr tars\<close>: what the rebuild of region \<open>hr\<close> relies on. TAMS and TARS
  lie in the region, TAMS not above TARS. An ordinary region holds the objects \<open>os\<close>
  from its bottom on, none of them empty, TAMS is a boundary between them, and they
  reach TARS. In a humongous region TAMS is the bottom or TARS (the comment at line 860
  of the source), and the humongous object starts at or below the region's bottom and
  reaches TARS.
\<close>

definition rebuild_wf :: "rebuild_heap \<Rightarrow> heap_obj list \<Rightarrow> rb_region \<Rightarrow> nat \<Rightarrow> bool" where
  "rebuild_wf H os hr tars =
     (rb_bottom hr \<le> rb_next_top_at_mark_start hr \<and> rb_next_top_at_mark_start hr \<le> tars
      \<and> tars \<le> rb_end hr
      \<and> (if isHumongous hr
          then (rb_next_top_at_mark_start hr = rb_bottom hr \<or> rb_next_top_at_mark_start hr = tars)
             \<and> rb_humongous_start_bottom hr \<le> rb_bottom hr
             \<and> tars \<le> rb_humongous_start_bottom hr
                        + obj_size H (rb_humongous_start_bottom hr)
          else laid_out H os (rb_bottom hr) \<and> list_all (\<lambda>ob. 0 < o_size ob) os
             \<and> boundary os (rb_bottom hr) (rb_next_top_at_mark_start hr)
             \<and> tars \<le> rb_bottom hr + sum_list (map o_size os)))"

text \<open>
  An old region for the rebuild, region 4 at words 0 to 32: a marked object of 3 words,
  a marked object array of 4, an unmarked object of 2 and a marked object array of 5
  below TAMS (14), then an object of 3 words allocated during marking, up to TARS (17).
  The marked objects below TAMS have (3 + 4 + 5) words, 96 bytes. The marking controller
  never aborts and never reclaims the region; \<open>ex_cm tars\<close> reports the given TARS.
\<close>

definition ex_objs :: "heap_obj list" where
  "ex_objs =
     [\<lparr>o_size = 3, o_is_array = False, o_marked = True\<rparr>,
      \<lparr>o_size = 4, o_is_array = True, o_marked = True\<rparr>,
      \<lparr>o_size = 2, o_is_array = False, o_marked = False\<rparr>,
      \<lparr>o_size = 5, o_is_array = True, o_marked = True\<rparr>,
      \<lparr>o_size = 3, o_is_array = False, o_marked = False\<rparr>]"

definition ex_rebuild_heap :: rebuild_heap where
  "ex_rebuild_heap =
     \<lparr>obj_size = (\<lambda>a. if a = 0 then 3 else if a = 3 then 4 else if a = 7 then 2
                        else if a = 9 then 5 else if a = 14 then 3 else 0),
      is_objArray = (\<lambda>a. a = 3 \<or> a = 9),
      isMarked = (\<lambda>a. a = 0 \<or> a = 3 \<or> a = 9),
      block_start = (\<lambda>a. if a < 3 then 0 else if a < 7 then 3 else if a < 9 then 7
                           else if a < 14 then 9 else 14)\<rparr>"

definition ex_old_region :: rb_region where
  "ex_old_region =
     \<lparr>rb_hrm_index = 4, rb_type = OLD, rb_bottom = 0, rb_end = 32,
      rb_humongous_start_bottom = 0, rb_next_top_at_mark_start = 14\<rparr>"

definition ex_cm :: "nat \<Rightarrow> cm_view" where
  "ex_cm tars = \<lparr>cm_has_aborted = (\<lambda>t. False), cm_top_at_rebuild_start = (\<lambda>t idx. Some tars)\<rparr>"

subsection \<open>Notions used to state the properties\<close>

text \<open>
  The events by which a worker takes hold of a remembered-set iterator and finishes it:
  the successful claim, the scan of the region's strong code roots, the mark "complete".
\<close>

fun claim_event :: "event \<Rightarrow> bool" where
  "claim_event (ClaimIter r) = True"
| "claim_event (StrongCodeRoots r) = True"
| "claim_event (SetIterComplete r) = True"
| "claim_event e = False"

text \<open>
  The events of draining a remembered set: taking a block of cards, putting a region on
  the dirty cards region list, claiming a card and scanning its memory.
\<close>

fun scan_event :: "event \<Rightarrow> bool" where
  "scan_event (CardStore c CLAIMED) = True"
| "scan_event (IterClaimedNext r n) = True"
| "scan_event (PushDirtyCardsRegion r) = True"
| "scan_event (ScanMemRegion r mr) = True"
| "scan_event e = False"

text \<open>The object iteration of a refinement, and the one of a refinement in a pause
  that was given push closure \<open>cl\<close>.\<close>

fun refinement_event :: "event \<Rightarrow> bool" where
  "refinement_event (OopsOnCard in_gc r mr cl) = True"
| "refinement_event e = False"

fun iterates_with :: "nat option \<Rightarrow> event \<Rightarrow> bool" where
  "iterates_with c (OopsOnCard in_gc r mr cl) = (in_gc \<and> cl = c)"
| "iterates_with c e = True"

definition iter_state_of :: "g1_state \<Rightarrow> nat \<Rightarrow> iter_state" where
  "iter_state_of s r = rs_iter_state (hr_rem_set (regions s r))"

text \<open>
  \<open>scan_frame s s'\<close>: from \<open>s\<close> to \<open>s'\<close> the trace grew by scan events only, and no
  remembered set's contents or iterator state, no region's membership of
  the collection set, and neither per-worker array changed.
\<close>

definition scan_frame :: "g1_state \<Rightarrow> g1_state \<Rightarrow> bool" where
  "scan_frame s s' =
     ((\<exists>es. trace s' = trace s @ es \<and> list_all scan_event es)
      \<and> (\<forall>q. rs_cards (hr_rem_set (regions s' q)) = rs_cards (hr_rem_set (regions s q))
             \<and> iter_state_of s' q = iter_state_of s q
             \<and> hr_in_collection_set (regions s' q) = hr_in_collection_set (regions s q))
      \<and> cset_rs_update_cl s' = cset_rs_update_cl s
      \<and> cards_scanned s' = cards_scanned s)"

section \<open>Properties\<close>

subsection \<open>Helper facts: what the small steps leave unchanged\<close>

lemma emit_fields [simp]:
  "trace (emit es s) = trace s @ es"
  "card_table (emit es s) = card_table s"
  "regions (emit es s) = regions s"
  "conc_refine_cards (emit es s) = conc_refine_cards s"
  "cset_rs_update_cl (emit es s) = cset_rs_update_cl s"
  "cards_scanned (emit es s) = cards_scanned s"
  "shared_dirty_card_queue (emit es s) = shared_dirty_card_queue s"
  "use_cache (emit es s) = use_cache s"
  "hot_cache (emit es s) = hot_cache s"
  "into_cset_buffers (emit es s) = into_cset_buffers s"
  "completed_buffers (emit es s) = completed_buffers s"
  "evacuation_failed (emit es s) = evacuation_failed s"
  by (simp_all add: emit_def)

lemma store_card_fields [simp]:
  "trace (store_card c v s) = trace s @ [CardStore c v]"
  "card_table (store_card c v s) = (card_table s)(c := v)"
  "regions (store_card c v s) = regions s"
  "conc_refine_cards (store_card c v s) = conc_refine_cards s"
  "cset_rs_update_cl (store_card c v s) = cset_rs_update_cl s"
  "cards_scanned (store_card c v s) = cards_scanned s"
  "shared_dirty_card_queue (store_card c v s) = shared_dirty_card_queue s"
  "use_cache (store_card c v s) = use_cache s"
  "hot_cache (store_card c v s) = hot_cache s"
  "into_cset_buffers (store_card c v s) = into_cset_buffers s"
  "completed_buffers (store_card c v s) = completed_buffers s"
  "evacuation_failed (store_card c v s) = evacuation_failed s"
  by (simp_all add: store_card_def)

lemma add_reference_fields [simp]:
  "trace (add_reference e s) = trace s"
  "card_table (add_reference e s) = card_table s"
  "conc_refine_cards (add_reference e s) = conc_refine_cards s"
  "cset_rs_update_cl (add_reference e s) = cset_rs_update_cl s"
  "cards_scanned (add_reference e s) = cards_scanned s"
  "shared_dirty_card_queue (add_reference e s) = shared_dirty_card_queue s"
  "use_cache (add_reference e s) = use_cache s"
  "hot_cache (add_reference e s) = hot_cache s"
  "into_cset_buffers (add_reference e s) = into_cset_buffers s"
  "completed_buffers (add_reference e s) = completed_buffers s"
  "evacuation_failed (add_reference e s) = evacuation_failed s"
  by (simp_all add: add_reference_def Let_def)

lemma fold_add_reference_fields [simp]:
  "trace (fold add_reference es s) = trace s"
  "card_table (fold add_reference es s) = card_table s"
  "conc_refine_cards (fold add_reference es s) = conc_refine_cards s"
  "cset_rs_update_cl (fold add_reference es s) = cset_rs_update_cl s"
  "cards_scanned (fold add_reference es s) = cards_scanned s"
  "shared_dirty_card_queue (fold add_reference es s) = shared_dirty_card_queue s"
  "use_cache (fold add_reference es s) = use_cache s"
  "hot_cache (fold add_reference es s) = hot_cache s"
  "into_cset_buffers (fold add_reference es s) = into_cset_buffers s"
  "completed_buffers (fold add_reference es s) = completed_buffers s"
  "evacuation_failed (fold add_reference es s) = evacuation_failed s"
  by (induction es arbitrary: s; simp)+

lemma fold_other_store_fields [simp]:
  "trace (fold other_store ws s) = trace s"
  "regions (fold other_store ws s) = regions s"
  "conc_refine_cards (fold other_store ws s) = conc_refine_cards s"
  "cset_rs_update_cl (fold other_store ws s) = cset_rs_update_cl s"
  "cards_scanned (fold other_store ws s) = cards_scanned s"
  "shared_dirty_card_queue (fold other_store ws s) = shared_dirty_card_queue s"
  "use_cache (fold other_store ws s) = use_cache s"
  "hot_cache (fold other_store ws s) = hot_cache s"
  "into_cset_buffers (fold other_store ws s) = into_cset_buffers s"
  "completed_buffers (fold other_store ws s) = completed_buffers s"
  "evacuation_failed (fold other_store ws s) = evacuation_failed s"
  by (induction ws arbitrary: s; simp add: other_store_def)+

lemma apply_outcome_fields [simp]:
  "trace (apply_outcome out s) = trace s"
  "conc_refine_cards (apply_outcome out s) = conc_refine_cards s"
  "cset_rs_update_cl (apply_outcome out s) = cset_rs_update_cl s"
  "cards_scanned (apply_outcome out s) = cards_scanned s"
  "shared_dirty_card_queue (apply_outcome out s) = shared_dirty_card_queue s"
  "use_cache (apply_outcome out s) = use_cache s"
  "hot_cache (apply_outcome out s) = hot_cache s"
  "into_cset_buffers (apply_outcome out s) = into_cset_buffers s"
  "completed_buffers (apply_outcome out s) = completed_buffers s"
  "evacuation_failed (apply_outcome out s) = evacuation_failed s"
  by (simp_all add: apply_outcome_def)

lemma card_table_fold_other_store:
  "card_table (fold other_store ws s) c = DIRTY \<Longrightarrow> card_table s c = DIRTY \<or> (c, DIRTY) \<in> set ws"
proof (induction ws arbitrary: s)
  case Nil
  then show ?case by simp
next
  case (Cons w ws)
  from Cons.IH [OF Cons.prems [simplified]]
  show ?case
    by (cases w) (auto simp: other_store_def split: if_splits)
qed

lemma card_table_apply_outcome_not_dirty:
  assumes "card_table s c \<noteq> DIRTY" and "(c, DIRTY) \<notin> set (concurrent_stores out)"
  shows "card_table (apply_outcome out s) c \<noteq> DIRTY"
  using assms card_table_fold_other_store [of "concurrent_stores out" "fold add_reference (rs_entries out) s" c]
  by (auto simp: apply_outcome_def)

lemma redirty_and_enqueue_fields [simp]:
  "trace (redirty_and_enqueue c s) =
     trace s @ [CardStore c DIRTY, LockSharedDirtyCardQ, EnqueueShared c, UnlockSharedDirtyCardQ]"
  "card_table (redirty_and_enqueue c s) = (card_table s)(c := DIRTY)"
  "shared_dirty_card_queue (redirty_and_enqueue c s) = shared_dirty_card_queue s @ [c]"
  "conc_refine_cards (redirty_and_enqueue c s) = conc_refine_cards s"
  "regions (redirty_and_enqueue c s) = regions s"
  by (simp_all add: redirty_and_enqueue_def Let_def dirty_card_val_def)

lemma conc_trim_Some:
  "conc_trim s p0 st0 r0 = (s1, Some (p, start, r, lim)) \<Longrightarrow>
     s1 = s \<and> p = p0 \<and> start = st0 \<and> r = r0 \<and> lim = hr_top (regions s r) \<and> start < lim"
  by (auto simp: conc_trim_def Let_def split: if_splits)

lemma conc_filters_Some:
  assumes "conc_filters X s c = (s1, Some (p, start, r, lim))"
  shows "card_table s c = DIRTY \<and> start = addr_for X p \<and> r = heap_region_containing X start
     \<and> is_old_or_humongous (regions s r) \<and> lim = hr_top (regions s r) \<and> start < lim
     \<and> card_table s1 = card_table s \<and> regions s1 = regions s
     \<and> conc_refine_cards s1 = conc_refine_cards s
     \<and> shared_dirty_card_queue s1 = shared_dirty_card_queue s
     \<and> trace s1 = trace s @ (if use_cache s then [HotCardInsert c] else [])
     \<and> (p \<noteq> c \<longrightarrow> use_cache s \<and> fst (hot_insert X (hot_cache s) c) = Some p)"
  using assms
  by (auto simp: conc_filters_def Let_def dirty_card_val_def
           split: if_splits prod.splits option.splits dest!: conc_trim_Some)

lemma conc_filters_None:
  assumes "conc_filters X s c = (s1, None)"
  shows "conc_refine_cards s1 = conc_refine_cards s \<and> card_table s1 = card_table s
     \<and> regions s1 = regions s \<and> shared_dirty_card_queue s1 = shared_dirty_card_queue s"
  using assms
  by (auto simp: conc_filters_def conc_trim_def Let_def
           split: if_splits prod.splits option.splits)

lemma conc_filters_not_dirty: "card_table s c \<noteq> DIRTY \<Longrightarrow> conc_filters X s c = (s, None)"
  by (simp add: conc_filters_def dirty_card_val_def)

lemma conc_iterate_fields:
  assumes "conc_iterate X s (p, start, r, lim) = (out, s3)"
  shows "trace s3 = trace s @ [CardStore p CLEAN, FullFence,
            OopsOnCard False r (start, min lim (start + card_size_in_words X)) None]"
    and "conc_refine_cards s3 = conc_refine_cards s"
    and "shared_dirty_card_queue s3 = shared_dirty_card_queue s"
    and "out = oops_on_card_seq_iterate_careful X False (emit [FullFence] (store_card p CLEAN s)) r
                 (start, min lim (start + card_size_in_words X))"
    and "(p, DIRTY) \<notin> set (concurrent_stores out) \<Longrightarrow> card_table s3 p \<noteq> DIRTY"
proof -
  let ?s2 = "emit [FullFence] (store_card p CLEAN s)"
  let ?mr = "(start, min lim (start + card_size_in_words X))"
  from assms have out: "out = oops_on_card_seq_iterate_careful X False ?s2 r ?mr"
    and s3: "s3 = apply_outcome out (emit [OopsOnCard False r ?mr None] ?s2)"
    by (auto simp: conc_iterate_def Let_def clean_card_val_def)
  show "trace s3 = trace s @ [CardStore p CLEAN, FullFence, OopsOnCard False r ?mr None]"
    by (simp add: s3)
  show "conc_refine_cards s3 = conc_refine_cards s"
    by (simp add: s3)
  show "shared_dirty_card_queue s3 = shared_dirty_card_queue s"
    by (simp add: s3)
  show "out = oops_on_card_seq_iterate_careful X False ?s2 r ?mr"
    by (rule out)
  show "card_table s3 p \<noteq> DIRTY" if "(p, DIRTY) \<notin> set (concurrent_stores out)"
    unfolding s3 by (rule card_table_apply_outcome_not_dirty [OF _ that]) simp
qed

lemma conc_refine_cards_refine:
  "conc_refine_cards (refine_card_concurrently X s c) =
     conc_refine_cards s +
       (case conc_filters X s c of
          (s1, None) \<Rightarrow> 0
        | (s1, Some t) \<Rightarrow> if card_processed (fst (conc_iterate X s1 t)) then 1 else 0)"
proof (cases "conc_filters X s c")
  case (Pair s1 res)
  show ?thesis
  proof (cases res)
    case None
    with Pair conc_filters_None [of X s c s1] show ?thesis
      by (simp add: refine_card_concurrently_def)
  next
    case (Some t)
    obtain p start r lim where t: "t = (p, start, r, lim)" by (cases t)
    from Pair Some t conc_filters_Some [of X s c s1 p start r lim]
         conc_iterate_fields(2) [OF surjective_pairing, of X s1 p start r lim]
    show ?thesis
      by (simp add: refine_card_concurrently_def conc_process_def split_beta)
  qed
qed

lemma word64_succ_neq: "(x :: 64 word) + 1 \<noteq> x"
  by simp

subsection \<open>Refinement of a card, concurrent and in a pause\<close>


lemma ex_filters:
  "conc_filters (ex_ext b ws) ex_state 3 = (ex_state, Some (3, 192, 0, 4096))"
  by (simp add: conc_filters_def conc_trim_def ex_ext_def ex_state_def ex_region_def
                dirty_card_val_def is_old_or_humongous_def)

lemma ex_iterate:
  "fst (conc_iterate (ex_ext b ws) ex_state (3, 192, 0, 4096)) = ex_outcome b ws"
  "card_table (snd (conc_iterate (ex_ext b []) ex_state (3, 192, 0, 4096))) 3 = CLEAN"
  "card_table (snd (conc_iterate (ex_ext b [(3, DIRTY)]) ex_state (3, 192, 0, 4096))) 3 = DIRTY"
  "trace (snd (conc_iterate (ex_ext b ws) ex_state (3, 192, 0, 4096))) =
     [CardStore 3 CLEAN, FullFence, OopsOnCard False 0 (192, 256) None]"
  "shared_dirty_card_queue (snd (conc_iterate (ex_ext b ws) ex_state (3, 192, 0, 4096))) = []"
  by (simp_all add: conc_iterate_def Let_def ex_ext_def ex_outcome_def apply_outcome_def
                    other_store_def ex_state_def clean_card_val_def)


text \<open>
  C5. When the object iteration of the concurrent path reports the card unparsable:
  if the byte of the card is CLEAN after the iteration, the call stores DIRTY into it
  and appends the card once to the shared dirty card queue, the enqueue lying between
  taking and releasing the shared queue lock; if the byte is already DIRTY (another
  thread redirtied it meanwhile), the call does nothing more: no store, no enqueue.
\<close>

theorem C5_redirty_once:
  assumes "conc_filters X s c = (s1, Some (p, start, r, scan_limit))"
      and "\<not> card_processed (fst (conc_iterate X s1 (p, start, r, scan_limit)))"
  shows "(card_table (snd (conc_iterate X s1 (p, start, r, scan_limit))) p = CLEAN \<longrightarrow>
            card_table (refine_card_concurrently X s c) p = DIRTY
          \<and> shared_dirty_card_queue (refine_card_concurrently X s c) = shared_dirty_card_queue s @ [p]
          \<and> trace (refine_card_concurrently X s c) =
              trace (snd (conc_iterate X s1 (p, start, r, scan_limit)))
                @ [CardStore p DIRTY, LockSharedDirtyCardQ, EnqueueShared p, UnlockSharedDirtyCardQ])
       \<and> (card_table (snd (conc_iterate X s1 (p, start, r, scan_limit))) p = DIRTY \<longrightarrow>
            refine_card_concurrently X s c = snd (conc_iterate X s1 (p, start, r, scan_limit))
          \<and> shared_dirty_card_queue (refine_card_concurrently X s c) = shared_dirty_card_queue s)"
  using assms conc_filters_Some [OF assms(1)]
        conc_iterate_fields(3) [OF surjective_pairing, of X s1 p start r scan_limit]
  by (simp add: refine_card_concurrently_def conc_process_def dirty_card_val_def split_beta)

theorem C5_witness:
  "card_table (refine_card_concurrently (ex_ext False []) ex_state 3) 3 = DIRTY
   \<and> shared_dirty_card_queue (refine_card_concurrently (ex_ext False []) ex_state 3) = [3]
   \<and> trace (refine_card_concurrently (ex_ext False []) ex_state 3) =
       [CardStore 3 CLEAN, FullFence, OopsOnCard False 0 (192, 256) None,
        CardStore 3 DIRTY, LockSharedDirtyCardQ, EnqueueShared 3, UnlockSharedDirtyCardQ]
   \<and> shared_dirty_card_queue (refine_card_concurrently (ex_ext False [(3, DIRTY)]) ex_state 3) = []
   \<and> trace (refine_card_concurrently (ex_ext False [(3, DIRTY)]) ex_state 3) =
       [CardStore 3 CLEAN, FullFence, OopsOnCard False 0 (192, 256) None]"
proof -
  have q: "shared_dirty_card_queue ex_state = []"
    by (simp add: ex_state_def)
  have np: "\<not> card_processed (fst (conc_iterate (ex_ext False ws) ex_state (3, 192, 0, 4096)))" for ws
    by (simp add: ex_iterate ex_outcome_def)
  from C5_redirty_once [OF ex_filters np, of "[]"] C5_redirty_once [OF ex_filters np, of "[(3, DIRTY)]"]
  show ?thesis
    by (simp add: ex_iterate q)
qed

text \<open>
  C10. \<^verbatim>\<open>refine_card_concurrently\<close> adds one to \<^verbatim>\<open>_conc_refine_cards\<close> when the filters
  pass and the object iteration reports the card processed, and leaves the counter as
  it was on every early return and on the redirty path;
  \<^verbatim>\<open>refine_card_during_gc\<close> adds one whenever it reaches the object iteration,
  whatever the closure found. Adding one changes the counter.
\<close>

theorem C10_counter:
  "conc_refine_cards (refine_card_concurrently X s c) =
     conc_refine_cards s +
       (case conc_filters X s c of
          (s1, None) \<Rightarrow> 0
        | (s1, Some t) \<Rightarrow> if card_processed (fst (conc_iterate X s1 t)) then 1 else 0)
   \<and> conc_refine_cards (snd (refine_card_during_gc X s c w)) =
     conc_refine_cards s + (case gc_filters X s c of None \<Rightarrow> 0 | Some t \<Rightarrow> 1)
   \<and> conc_refine_cards s + 1 \<noteq> conc_refine_cards s"
proof -
  have "conc_refine_cards (snd (refine_card_during_gc X s c w)) =
     conc_refine_cards s + (case gc_filters X s c of None \<Rightarrow> 0 | Some t \<Rightarrow> 1)"
    by (auto simp: refine_card_during_gc_def gc_process_def gc_iterate_def Let_def
             split: option.splits prod.splits)
  with conc_refine_cards_refine [of X s c] show ?thesis
    by simp
qed

theorem C10_witness:
  "conc_refine_cards (refine_card_concurrently (ex_ext True []) ex_state 3) = 1
   \<and> conc_refine_cards (refine_card_concurrently (ex_ext False []) ex_state 3) = 0
   \<and> conc_refine_cards (refine_card_concurrently (ex_ext True []) ex_state 2) = 0
   \<and> conc_refine_cards (snd (refine_card_during_gc (ex_ext True []) ex_state 3 0)) = 1
   \<and> conc_refine_cards (snd (refine_card_during_gc (ex_ext True []) ex_state 2 0)) = 0"
proof -
  have f2: "conc_filters (ex_ext True []) ex_state 2 = (ex_state, None)"
    by (simp add: conc_filters_def ex_state_def dirty_card_val_def)
  have g1: "gc_filters (ex_ext True []) ex_state 3 = Some (3, 192, 0, 4096)"
    by (simp add: gc_filters_def ex_ext_def ex_state_def ex_region_def
                  dirty_card_val_def is_old_or_humongous_def)
  have g2: "gc_filters (ex_ext True []) ex_state 2 = None"
    by (simp add: gc_filters_def ex_state_def dirty_card_val_def)
  have z: "conc_refine_cards ex_state = 0"
    by (simp add: ex_state_def)
  from C10_counter [of "ex_ext True []" ex_state 3 0] C10_counter [of "ex_ext False []" ex_state 3 0]
       C10_counter [of "ex_ext True []" ex_state 2 0]
  show ?thesis
    by (simp add: ex_filters ex_iterate ex_outcome_def f2 g1 g2 z)
qed

lemma gc_filters_Some:
  assumes "gc_filters X s c = Some (p, start, r, lim)"
  shows "p = c \<and> card_table s c = DIRTY \<and> start = addr_for X c
       \<and> r = heap_region_containing X start \<and> is_old_or_humongous (regions s r)
       \<and> \<not> hr_in_collection_set (regions s r) \<and> lim = hr_scan_top (regions s r) \<and> start < lim"
  using assms by (auto simp: gc_filters_def Let_def dirty_card_val_def split: if_splits)

text \<open>
  C2. In a pause, \<^verbatim>\<open>refine_card_during_gc\<close> on a card whose region is in the
  collection set returns false and leaves the whole state, remembered sets included, as
  it was; so it does when the region's \<open>scan_top\<close> is at or below the start of the
  card. When the filters pass, the region is not in the collection set, the scan limit
  is the region's \<open>scan_top\<close>, and the range handed to the object iteration ends at
  the smaller of \<open>scan_top\<close> and the end of the card.
\<close>

theorem C2_refine_during_gc:
  "(hr_in_collection_set (regions s (heap_region_containing X (addr_for X c))) \<longrightarrow>
      refine_card_during_gc X s c w = (False, s))
   \<and> (hr_scan_top (regions s (heap_region_containing X (addr_for X c))) \<le> addr_for X c \<longrightarrow>
      refine_card_during_gc X s c w = (False, s))
   \<and> (\<forall>p start r lim. gc_filters X s c = Some (p, start, r, lim) \<longrightarrow>
        \<not> hr_in_collection_set (regions s r) \<and> lim = hr_scan_top (regions s r)
        \<and> trace (snd (refine_card_during_gc X s c w)) =
            trace s @ [CardStore c CLEAN,
                       OopsOnCard True r
                         (start, min (hr_scan_top (regions s r)) (start + card_size_in_words X))
                         (closure_of_worker s w)])"
proof (intro conjI impI allI)
  assume "hr_in_collection_set (regions s (heap_region_containing X (addr_for X c)))"
  then show "refine_card_during_gc X s c w = (False, s)"
    by (simp add: refine_card_during_gc_def gc_filters_def Let_def)
next
  assume "hr_scan_top (regions s (heap_region_containing X (addr_for X c))) \<le> addr_for X c"
  then show "refine_card_during_gc X s c w = (False, s)"
    by (simp add: refine_card_during_gc_def gc_filters_def Let_def)
next
  fix p start r lim
  assume f: "gc_filters X s c = Some (p, start, r, lim)"
  from gc_filters_Some [OF f]
  show "\<not> hr_in_collection_set (regions s r)" and "lim = hr_scan_top (regions s r)"
    by blast+
  from gc_filters_Some [OF f] f
  show "trace (snd (refine_card_during_gc X s c w)) =
            trace s @ [CardStore c CLEAN,
                       OopsOnCard True r
                         (start, min (hr_scan_top (regions s r)) (start + card_size_in_words X))
                         (closure_of_worker s w)]"
    by (simp add: refine_card_during_gc_def gc_process_def gc_iterate_def Let_def
                  clean_card_val_def closure_of_worker_def)
qed


theorem C2_witness:
  "refine_card_during_gc (ex_ext True []) (ex_state_gc True 4096) 3 0 = (False, ex_state_gc True 4096)
   \<and> refine_card_during_gc (ex_ext True []) (ex_state_gc False 100) 3 0 = (False, ex_state_gc False 100)
   \<and> hr_top (regions (ex_state_gc False 200) 0) = 4096
   \<and> trace (snd (refine_card_during_gc (ex_ext True []) (ex_state_gc False 200) 3 0)) =
       [CardStore 3 CLEAN, OopsOnCard True 0 (192, 200) (Some 7)]"
proof -
  have a: "hr_in_collection_set (regions (ex_state_gc True 4096)
             (heap_region_containing (ex_ext True []) (addr_for (ex_ext True []) 3)))"
    by (simp add: ex_state_gc_def ex_ext_def)
  have b: "hr_scan_top (regions (ex_state_gc False 100)
             (heap_region_containing (ex_ext True []) (addr_for (ex_ext True []) 3)))
           \<le> addr_for (ex_ext True []) 3"
    by (simp add: ex_state_gc_def ex_ext_def)
  have c: "gc_filters (ex_ext True []) (ex_state_gc False 200) 3 = Some (3, 192, 0, 200)"
    by (simp add: gc_filters_def ex_state_gc_def ex_state_def ex_ext_def ex_region_def
                  dirty_card_val_def is_old_or_humongous_def)
  have d: "hr_top (regions (ex_state_gc False 200) 0) = 4096"
          "hr_scan_top (regions (ex_state_gc False 200) 0) = 200"
          "trace (ex_state_gc False 200) = []"
          "closure_of_worker (ex_state_gc False 200) 0 = Some 7"
          "card_size_in_words (ex_ext True []) = 64"
    by (simp_all add: ex_state_gc_def ex_state_def ex_region_def ex_ext_def closure_of_worker_def)
  from C2_refine_during_gc [of "ex_state_gc True 4096" "ex_ext True []" 3 0] a
       C2_refine_during_gc [of "ex_state_gc False 100" "ex_ext True []" 3 0] b
       C2_refine_during_gc [of "ex_state_gc False 200" "ex_ext True []" 3 0] c
  show ?thesis
    by (simp add: d)
qed

lemma refine_not_dirty: "card_table s c \<noteq> DIRTY \<Longrightarrow> refine_card_concurrently X s c = s"
  by (simp add: refine_card_concurrently_def conc_filters_not_dirty)

lemma ex_hot_first:
  "conc_filters (ex_ext True []) ex_state_hot 30 =
     (emit [HotCardInsert 30] (ex_state_hot\<lparr>hot_cache := [20, 30]\<rparr>), Some (10, 640, 0, 4096))"
  by (simp add: conc_filters_def conc_trim_def ex_ext_def ex_state_hot_def ex_state_def
                ex_region_def dirty_card_val_def is_old_or_humongous_def hot_insert_fifo_def
                emit_def)

text \<open>
  C9, as stated, fails: in the spec's hot card cache scenario (the cache holds cards 10
  and 20; cards 10, 20 and 30 are dirty) the first call on card 30 caches it and refines
  the evicted card 10, so card 30 is still DIRTY afterwards; the second call on card 30,
  with no dirtying in between, evicts and refines card 20 and changes the state again.
\<close>

theorem C9_counterexample:
  "card_table (refine_card_concurrently (ex_ext True []) ex_state_hot 30) 30 = DIRTY
   \<and> refine_card_concurrently (ex_ext True [])
        (refine_card_concurrently (ex_ext True []) ex_state_hot 30) 30
      \<noteq> refine_card_concurrently (ex_ext True []) ex_state_hot 30"
proof -
  let ?X = "ex_ext True []"
  let ?s1 = "refine_card_concurrently ?X ex_state_hot 30"
  have s1: "?s1 =
     (apply_outcome (ex_outcome True [])
        (emit [OopsOnCard False 0 (640, 704) None]
           (emit [FullFence] (store_card 10 CLEAN
              (emit [HotCardInsert 30] (ex_state_hot\<lparr>hot_cache := [20, 30]\<rparr>))))))
       \<lparr>conc_refine_cards := 1\<rparr>"
    by (simp add: refine_card_concurrently_def ex_hot_first conc_process_def conc_iterate_def
                  Let_def clean_card_val_def)
       (simp add: ex_ext_def ex_outcome_def ex_state_hot_def ex_state_def)
  have ct: "card_table ?s1 = (\<lambda>c. if c = 20 \<or> c = 30 then DIRTY else CLEAN)"
    by (subst s1) (simp add: apply_outcome_def ex_outcome_def ex_state_hot_def ex_state_def fun_eq_iff)
  have dirty: "card_table ?s1 30 = DIRTY"
    by (simp add: ct)
  have f2: "conc_filters ?X ?s1 30 =
     (emit [HotCardInsert 30] (?s1\<lparr>hot_cache := [30, 30]\<rparr>), Some (20, 1280, 0, 4096))"
  proof -
    have h: "use_cache ?s1" "hot_cache ?s1 = [20, 30]"
      by (subst s1, simp add: ex_state_hot_def)+
    have r: "is_old_or_humongous (regions ?s1 0)" "hr_top (regions ?s1 0) = 4096"
      by (subst s1, simp add: apply_outcome_def ex_outcome_def add_reference_def Let_def
                 ex_state_hot_def ex_state_def ex_region_def is_old_or_humongous_def)+
    have x: "addr_for ?X = (\<lambda>c. c * 64)" "heap_region_containing ?X = (\<lambda>a. a div 131072)"
            "hot_insert ?X = hot_insert_fifo 2"
      by (simp_all add: ex_ext_def)
    show ?thesis
      unfolding conc_filters_def conc_trim_def
      by (simp add: ct h r x dirty_card_val_def hot_insert_fifo_def Let_def)
  qed
  have "conc_refine_cards (refine_card_concurrently ?X ?s1 30) = conc_refine_cards ?s1 + 1"
    by (simp add: conc_refine_cards_refine f2 conc_iterate_fields(4) [OF surjective_pairing])
       (simp add: ex_ext_def ex_outcome_def)
  then have "refine_card_concurrently ?X ?s1 30 \<noteq> ?s1"
    by (metis word64_succ_neq)
  with dirty show ?thesis by simp
qed

text \<open>
  C9, amended. If card \<open>c\<close> is not DIRTY on entry, or the first call passes the filters
  with \<open>c\<close> itself as the card to process, its object iteration reports the card
  processed and no other thread stores DIRTY into \<open>c\<close> meanwhile, then after the first
  call the byte of \<open>c\<close> is not DIRTY, and a second call on \<open>c\<close> returns at the initial
  check and leaves the state as the first call left it.
\<close>

theorem C9_second_call_is_noop:
  assumes "card_table s c \<noteq> DIRTY \<or>
           (\<exists>s1 start r lim.
              conc_filters X s c = (s1, Some (c, start, r, lim))
            \<and> card_processed (fst (conc_iterate X s1 (c, start, r, lim)))
            \<and> (c, DIRTY) \<notin> set (concurrent_stores (fst (conc_iterate X s1 (c, start, r, lim)))))"
  shows "card_table (refine_card_concurrently X s c) c \<noteq> DIRTY
       \<and> conc_filters X (refine_card_concurrently X s c) c = (refine_card_concurrently X s c, None)
       \<and> refine_card_concurrently X (refine_card_concurrently X s c) c = refine_card_concurrently X s c"
proof -
  have "card_table (refine_card_concurrently X s c) c \<noteq> DIRTY"
    using assms
  proof
    assume "card_table s c \<noteq> DIRTY"
    then show ?thesis by (simp add: refine_not_dirty)
  next
    assume "\<exists>s1 start r lim.
              conc_filters X s c = (s1, Some (c, start, r, lim))
            \<and> card_processed (fst (conc_iterate X s1 (c, start, r, lim)))
            \<and> (c, DIRTY) \<notin> set (concurrent_stores (fst (conc_iterate X s1 (c, start, r, lim))))"
    then obtain s1 start r lim where
      f: "conc_filters X s c = (s1, Some (c, start, r, lim))" and
      p: "card_processed (fst (conc_iterate X s1 (c, start, r, lim)))" and
      n: "(c, DIRTY) \<notin> set (concurrent_stores (fst (conc_iterate X s1 (c, start, r, lim))))"
      by blast
    from conc_iterate_fields(5) [OF surjective_pairing n]
    have "card_table (snd (conc_iterate X s1 (c, start, r, lim))) c \<noteq> DIRTY" .
    with f p show ?thesis
      by (simp add: refine_card_concurrently_def conc_process_def split_beta)
  qed
  then show ?thesis
    by (simp add: refine_not_dirty conc_filters_not_dirty)
qed

theorem C9_witness:
  "card_table (refine_card_concurrently (ex_ext True []) ex_state 3) 3 \<noteq> DIRTY
   \<and> refine_card_concurrently (ex_ext True [])
       (refine_card_concurrently (ex_ext True []) ex_state 3) 3
     = refine_card_concurrently (ex_ext True []) ex_state 3"
proof -
  have "\<exists>s1 start r lim.
          conc_filters (ex_ext True []) ex_state 3 = (s1, Some (3, start, r, lim))
        \<and> card_processed (fst (conc_iterate (ex_ext True []) s1 (3, start, r, lim)))
        \<and> (3, DIRTY) \<notin> set (concurrent_stores (fst (conc_iterate (ex_ext True []) s1 (3, start, r, lim))))"
    by (intro exI conjI, rule ex_filters) (simp_all add: ex_iterate ex_outcome_def)
  then show ?thesis
    using C9_second_call_is_noop [of ex_state 3 "ex_ext True []"] by blast
qed

subsection \<open>The scanner\<close>

lemma upd_rem_set_fields [simp]:
  "trace (upd_rem_set r f s) = trace s"
  "card_table (upd_rem_set r f s) = card_table s"
  "cset_rs_update_cl (upd_rem_set r f s) = cset_rs_update_cl s"
  "cards_scanned (upd_rem_set r f s) = cards_scanned s"
  "conc_refine_cards (upd_rem_set r f s) = conc_refine_cards s"
  "hr_in_collection_set (regions (upd_rem_set r f s) q) = hr_in_collection_set (regions s q)"
  "hr_on_dirty_cards_region_list (regions (upd_rem_set r f s) q) = hr_on_dirty_cards_region_list (regions s q)"
  "hr_bottom (regions (upd_rem_set r f s) q) = hr_bottom (regions s q)"
  "hr_scan_top (regions (upd_rem_set r f s) q) = hr_scan_top (regions s q)"
  "hr_rem_set (regions (upd_rem_set r f s) q) = (if q = r then f (hr_rem_set (regions s r)) else hr_rem_set (regions s q))"
  by (simp_all add: upd_rem_set_def)

lemma push_dirty_cards_region_fields [simp]:
  "trace (push_dirty_cards_region r s) = trace s @ [PushDirtyCardsRegion r]"
  "card_table (push_dirty_cards_region r s) = card_table s"
  "cset_rs_update_cl (push_dirty_cards_region r s) = cset_rs_update_cl s"
  "cards_scanned (push_dirty_cards_region r s) = cards_scanned s"
  "hr_in_collection_set (regions (push_dirty_cards_region r s) q) = hr_in_collection_set (regions s q)"
  "hr_bottom (regions (push_dirty_cards_region r s) q) = hr_bottom (regions s q)"
  "hr_scan_top (regions (push_dirty_cards_region r s) q) = hr_scan_top (regions s q)"
  "hr_rem_set (regions (push_dirty_cards_region r s) q) = hr_rem_set (regions s q)"
  by (simp_all add: push_dirty_cards_region_def)

text \<open>
  C3. The per-card work of the scanner on a card of a remembered set, with \<open>r'\<close> the
  region containing the card: the card's memory is scanned exactly when \<open>r'\<close> is not in
  the collection set, the card's byte is neither DIRTY nor CLAIMED and the card's range
  meets \<^verbatim>\<open>[r'.bottom(), r'.scan_top())\<close>. Then the store of CLAIMED into the card's
  byte comes first, the scan second, and the memory scanned is that intersection;
  otherwise nothing is scanned and the card table is as before. Either way the region
  is first put on the dirty cards region list if it was not on it.
\<close>

theorem C3_per_card_work:
  assumes "r' = heap_region_containing X (address_for_index X card_index)"
      and "mr = mr_intersection (hr_bottom (regions s r'), hr_scan_top (regions s r'))
                  (MemRegion_sz (address_for_index X card_index) (N_words X))"
      and "pushes = (if hr_on_dirty_cards_region_list (regions s r') then []
                     else [PushDirtyCardsRegion r'])"
      and "per_card_work X card_index (cl, s) = (cl', s')"
  shows "if \<not> hr_in_collection_set (regions s r') \<and> card_table s card_index \<noteq> DIRTY
            \<and> card_table s card_index \<noteq> CLAIMED \<and> \<not> mr_is_empty mr
         then trace s' = trace s @ pushes @ [CardStore card_index CLAIMED, ScanMemRegion r' mr]
            \<and> card_table s' = (card_table s)(card_index := CLAIMED)
            \<and> cl_cards_done cl' = cl_cards_done cl + 1
         else trace s' = trace s @ pushes \<and> card_table s' = card_table s
            \<and> cl_cards_done cl' = cl_cards_done cl"
proof -
  let ?s2 = "if hr_on_dirty_cards_region_list (regions s r') then s else push_dirty_cards_region r' s"
  have s2: "trace ?s2 = trace s @ pushes" "card_table ?s2 = card_table s"
    "hr_in_collection_set (regions ?s2 r') = hr_in_collection_set (regions s r')"
    "hr_bottom (regions ?s2 r') = hr_bottom (regions s r')"
    "hr_scan_top (regions ?s2 r') = hr_scan_top (regions s r')"
    by (simp_all add: assms(3))
  have w: "per_card_work X card_index (cl, s) =
      (if \<not> hr_in_collection_set (regions ?s2 r') \<and> \<not> is_card_dirty ?s2 card_index
       then scanCard X card_index r' (cl\<lparr>cl_cards := cl_cards cl + 1\<rparr>, ?s2)
       else (cl\<lparr>cl_cards := cl_cards cl + 1\<rparr>, ?s2))"
    by (simp add: per_card_work_def Let_def assms(1))
  show ?thesis
  proof (cases "\<not> hr_in_collection_set (regions s r') \<and> card_table s card_index \<noteq> DIRTY
            \<and> card_table s card_index \<noteq> CLAIMED \<and> \<not> mr_is_empty mr")
    case True
    with assms(4) w s2 assms(2) show ?thesis
      by (auto simp: scanCard_def Let_def is_card_dirty_def is_card_claimed_def
                     set_card_claimed_def)
  next
    case False
    with assms(4) w s2 assms(2) show ?thesis
      by (auto simp: scanCard_def Let_def is_card_dirty_def is_card_claimed_def
                     set_card_claimed_def split: if_splits)
  qed
qed


theorem C3_witness:
  "trace (snd (per_card_work (ex_ext True []) 5 (ScanRSClosure (ex_ext True []) 7 0, ex_state_scan))) =
     [PushDirtyCardsRegion 0, CardStore 5 CLAIMED, ScanMemRegion 0 (320, 384)]
   \<and> card_table (snd (per_card_work (ex_ext True []) 5 (ScanRSClosure (ex_ext True []) 7 0, ex_state_scan))) 5 = CLAIMED
   \<and> trace (snd (per_card_work (ex_ext True []) 3 (ScanRSClosure (ex_ext True []) 7 0, ex_state_scan))) =
     [PushDirtyCardsRegion 0]
   \<and> trace (snd (per_card_work (ex_ext True []) 4100 (ScanRSClosure (ex_ext True []) 7 0, ex_state_scan))) =
     [PushDirtyCardsRegion 2]"
proof -
  let ?X = "ex_ext True []"
  let ?cl = "ScanRSClosure ?X 7 0"
  have x: "heap_region_containing ?X = (\<lambda>a. a div 131072)"
          "address_for_index ?X = (\<lambda>c. c * 64)" "N_words ?X = 64"
    by (simp_all add: ex_ext_def)
  have s: "hr_bottom (regions ex_state_scan 0) = 0" "hr_scan_top (regions ex_state_scan 0) = 4096"
          "hr_bottom (regions ex_state_scan 2) = 262144" "hr_scan_top (regions ex_state_scan 2) = 266240"
          "\<not> hr_on_dirty_cards_region_list (regions ex_state_scan 0)"
          "\<not> hr_on_dirty_cards_region_list (regions ex_state_scan 2)"
          "\<not> hr_in_collection_set (regions ex_state_scan 0)"
          "hr_in_collection_set (regions ex_state_scan 2)"
          "card_table ex_state_scan 5 = CLEAN" "card_table ex_state_scan 3 = DIRTY"
          "trace ex_state_scan = []"
    by (simp_all add: ex_state_scan_def ex_state_def ex_region_def)
  have m: "mr_intersection (0, 4096) (MemRegion_sz 320 64) = (320, 384)"
          "\<not> mr_is_empty (320, 384)"
    by (simp_all add: mr_intersection_def MemRegion_sz_def mr_start_def mr_end_def
                      mr_is_empty_def mr_word_size_def)
  from C3_per_card_work [OF refl refl refl surjective_pairing,
         where X = "?X" and card_index = 5 and s = ex_state_scan and cl = "?cl"]
       C3_per_card_work [OF refl refl refl surjective_pairing,
         where X = "?X" and card_index = 3 and s = ex_state_scan and cl = "?cl"]
       C3_per_card_work [OF refl refl refl surjective_pairing,
         where X = "?X" and card_index = 4100 and s = ex_state_scan and cl = "?cl"]
  show ?thesis
    by (simp add: x s m)
qed

subsection \<open>Claiming and completing a remembered-set iterator\<close>

lemma scan_frame_refl [simp]: "scan_frame s s"
  by (simp add: scan_frame_def)

lemma scan_frame_trans: "scan_frame s s' \<Longrightarrow> scan_frame s' s'' \<Longrightarrow> scan_frame s s''"
  unfolding scan_frame_def
  by (elim conjE exE) (auto intro!: exI [where x = "_ @ _"])

lemma scan_frame_push: "scan_frame s (push_dirty_cards_region r s)"
  by (simp add: scan_frame_def iter_state_of_def)

lemma scan_frame_iter_claimed_next: "scan_frame s (snd (iter_claimed_next r n s))"
  by (simp add: scan_frame_def iter_state_of_def iter_claimed_next_def Let_def)

lemma scan_frame_set_card_claimed: "scan_frame s (set_card_claimed c s)"
  by (simp add: scan_frame_def iter_state_of_def set_card_claimed_def)

lemma scan_frame_emit: "list_all scan_event es \<Longrightarrow> scan_frame s (emit es s)"
  by (simp add: scan_frame_def iter_state_of_def)

lemma scanCard_frame: "scan_frame s (snd (scanCard X i r (cl, s)))"
  unfolding scanCard_def Let_def
  by (auto intro: scan_frame_trans [OF scan_frame_set_card_claimed scan_frame_emit])

lemma scanCard_cl [simp]:
  "cl_try_claimed (fst (scanCard X i r (cl, s))) = cl_try_claimed cl"
  "cl_block_size (fst (scanCard X i r (cl, s))) = cl_block_size cl"
  by (simp_all add: scanCard_def Let_def)

lemma per_card_work_frame: "scan_frame s (snd (per_card_work X i (cl, s)))"
  unfolding per_card_work_def Let_def
  by (auto intro: scan_frame_trans [OF scan_frame_push scanCard_frame] scanCard_frame scan_frame_push)

lemma per_card_work_cl [simp]:
  "cl_try_claimed (fst (per_card_work X i (cl, s))) = cl_try_claimed cl"
  "cl_block_size (fst (per_card_work X i (cl, s))) = cl_block_size cl"
  by (simp_all add: per_card_work_def Let_def)

lemma scan_cards_frame:
  "scan_frame s (snd (scan_cards X r bs cards cur jump (cl, s)))
   \<and> cl_try_claimed (fst (scan_cards X r bs cards cur jump (cl, s))) = cl_try_claimed cl"
proof (induction cards arbitrary: cur jump cl s)
  case Nil
  then show ?case by simp
next
  case (Cons card_index rest)
  let ?js = "if cur \<ge> jump + bs then iter_claimed_next r bs s else (jump, s)"
  have f1: "scan_frame s (snd ?js)"
    by (simp add: scan_frame_iter_claimed_next)
  show ?case
  proof (cases "cur < fst ?js")
    case True
    then have e: "scan_cards X r bs (card_index # rest) cur jump (cl, s) =
                  scan_cards X r bs rest (cur + 1) (fst ?js) (cl, snd ?js)"
      by (simp add: split_beta)
    from Cons.IH [where cur = "cur + 1" and jump = "fst ?js" and cl = cl and s = "snd ?js"] f1 show ?thesis
      unfolding e by (blast intro: scan_frame_trans)
  next
    case False
    let ?w = "per_card_work X card_index (cl, snd ?js)"
    from False have e: "scan_cards X r bs (card_index # rest) cur jump (cl, s) =
                  scan_cards X r bs rest (cur + 1) (fst ?js) (fst ?w, snd ?w)"
      by (simp add: split_beta)
    have f2: "scan_frame (snd ?js) (snd ?w)"
      by (rule per_card_work_frame)
    from Cons.IH [where cur = "cur + 1" and jump = "fst ?js" and cl = "fst ?w" and s = "snd ?w"] f1 f2 show ?thesis
      unfolding e by (auto intro: scan_frame_trans)
  qed
qed


lemma scan_event_other:
  "scan_event e \<Longrightarrow> \<not> claim_event e \<and> \<not> refinement_event e \<and> iterates_with c e"
  by (cases e rule: scan_event.cases) simp_all

lemma count_list_no_claim_event:
  "list_all scan_event es \<Longrightarrow> claim_event x \<Longrightarrow> count_list es x = 0"
  by (induction es) (auto dest: scan_event_other)

lemma scan_events_iterate_with:
  "list_all scan_event es \<Longrightarrow> list_all (iterates_with c) es"
  by (induction es) (auto dest: scan_event_other)

lemma scan_frame_count:
  assumes "scan_frame s s'"
  obtains es where "trace s' = trace s @ es" "list_all scan_event es"
  using assms unfolding scan_frame_def by blast

lemma scan_frameD:
  assumes "scan_frame s s'"
  shows "iter_state_of s' q = iter_state_of s q"
    and "rs_cards (hr_rem_set (regions s' q)) = rs_cards (hr_rem_set (regions s q))"
    and "hr_in_collection_set (regions s' q) = hr_in_collection_set (regions s q)"
    and "cset_rs_update_cl s' = cset_rs_update_cl s"
    and "cards_scanned s' = cards_scanned s"
  using assms unfolding scan_frame_def by blast+

text \<open>What the drain of one remembered set (lines 191-226) does, for either phase.\<close>

lemma doHeapRegion_body_eq:
  "\<exists>cl' s3. scan_frame s s3 \<and> cl_try_claimed cl' = cl_try_claimed cl
     \<and> doHeapRegion_body X cl s r =
         (False, cl', if \<not> cl_try_claimed cl
                      then set_iter_complete r (scan_strong_code_roots r s3) else s3)"
proof -
  let ?s1 = "push_dirty_cards_region r s"
  let ?j = "iter_claimed_next r (cl_block_size cl) ?s1"
  let ?sc = "scan_cards X r (cl_block_size cl) (rs_cards (hr_rem_set (regions ?s1 r))) 0 (fst ?j)
               (cl, snd ?j)"
  have "scan_frame s (snd ?sc)"
    by (blast intro: scan_frame_trans scan_frame_push scan_frame_iter_claimed_next
                     scan_cards_frame [THEN conjunct1])
  moreover have "cl_try_claimed (fst ?sc) = cl_try_claimed cl"
    by (simp add: scan_cards_frame)
  moreover have "doHeapRegion_body X cl s r =
         (False, fst ?sc, if \<not> cl_try_claimed (fst ?sc)
                      then set_iter_complete r (scan_strong_code_roots r (snd ?sc)) else snd ?sc)"
    by (simp add: doHeapRegion_body_def Let_def split_beta)
  ultimately show ?thesis
    by auto
qed

lemma doHeapRegion_complete:
  "iter_state_of s r = Complete \<Longrightarrow> doHeapRegion X cl s r = (False, cl, s)"
  by (simp add: doHeapRegion_def iter_is_complete_def iter_state_of_def)

lemma doHeapRegion_claimed:
  "\<not> cl_try_claimed cl \<Longrightarrow> iter_state_of s r = Claimed \<Longrightarrow> doHeapRegion X cl s r = (False, cl, s)"
  by (simp add: doHeapRegion_def iter_is_complete_def iter_state_of_def claim_iter_def)

lemma doHeapRegion_unclaimed:
  assumes "\<not> cl_try_claimed cl" and "iter_state_of s r = Unclaimed"
  shows "\<exists>cl' s' mid. doHeapRegion X cl s r = (False, cl', s')
     \<and> \<not> cl_try_claimed cl'
     \<and> trace s' = trace s @ [ClaimIter r] @ mid
                     @ [StrongCodeRoots r, TrimQueuePartially, SetIterComplete r]
     \<and> list_all scan_event mid
     \<and> (\<forall>q. iter_state_of s' q = (if q = r then Complete else iter_state_of s q))
     \<and> (\<forall>q. rs_cards (hr_rem_set (regions s' q)) = rs_cards (hr_rem_set (regions s q))
            \<and> hr_in_collection_set (regions s' q) = hr_in_collection_set (regions s q))
     \<and> cset_rs_update_cl s' = cset_rs_update_cl s
     \<and> cards_scanned s' = cards_scanned s"
proof -
  let ?s0 = "emit [ClaimIter r] (upd_rem_set r (\<lambda>rs. rs\<lparr>rs_iter_state := Claimed\<rparr>) s)"
  from assms have d: "doHeapRegion X cl s r = doHeapRegion_body X cl ?s0 r"
    by (simp add: doHeapRegion_def iter_is_complete_def iter_state_of_def claim_iter_def)
  from doHeapRegion_body_eq [of ?s0 cl X r] assms(1)
  obtain cl' s3 where f: "scan_frame ?s0 s3" and c: "cl_try_claimed cl' = cl_try_claimed cl"
    and b: "doHeapRegion_body X cl ?s0 r =
              (False, cl', set_iter_complete r (scan_strong_code_roots r s3))"
    by auto
  from f obtain mid where t: "trace s3 = trace ?s0 @ mid"
    and m: "list_all scan_event mid"
    by (rule scan_frame_count)
  let ?s' = "set_iter_complete r (scan_strong_code_roots r s3)"
  have "trace ?s' = trace s @ [ClaimIter r] @ mid
                     @ [StrongCodeRoots r, TrimQueuePartially, SetIterComplete r]"
    by (simp add: set_iter_complete_def scan_strong_code_roots_def t)
  moreover have "\<forall>q. iter_state_of ?s' q = (if q = r then Complete else iter_state_of s q)"
    using scan_frameD(1) [OF f]
    by (simp add: set_iter_complete_def scan_strong_code_roots_def iter_state_of_def)
  moreover have "\<forall>q. rs_cards (hr_rem_set (regions ?s' q)) = rs_cards (hr_rem_set (regions s q))
            \<and> hr_in_collection_set (regions ?s' q) = hr_in_collection_set (regions s q)"
    using scan_frameD(2,3) [OF f]
    by (simp add: set_iter_complete_def scan_strong_code_roots_def)
  moreover have "cset_rs_update_cl ?s' = cset_rs_update_cl s" "cards_scanned ?s' = cards_scanned s"
    using scan_frameD(4,5) [OF f]
    by (simp_all add: set_iter_complete_def scan_strong_code_roots_def)
  ultimately show ?thesis
    using d b c assms(1) m by auto
qed

lemma doHeapRegion_try_claimed:
  assumes "cl_try_claimed cl"
  shows "\<exists>cl' s'. doHeapRegion X cl s r = (False, cl', s') \<and> cl_try_claimed cl'
           \<and> scan_frame s s'"
proof (cases "iter_state_of s r = Complete")
  case True
  with assms show ?thesis
    by (simp add: doHeapRegion_complete)
next
  case False
  with assms have "doHeapRegion X cl s r = doHeapRegion_body X cl s r"
    by (simp add: doHeapRegion_def iter_is_complete_def iter_state_of_def)
  with doHeapRegion_body_eq [of s cl X r] assms show ?thesis
    by auto
qed


text \<open>The two passes over the collection set.\<close>

lemma pass_try_claimed:
  assumes "cl_try_claimed cl"
  shows "\<exists>cl' s'. collection_set_iterate X rs (cl, s) = (cl', s') \<and> cl_try_claimed cl'
           \<and> scan_frame s s'"
  using assms
proof (induction rs arbitrary: cl s)
  case Nil
  then show ?case by simp
next
  case (Cons r rs)
  from doHeapRegion_try_claimed [OF Cons.prems, of X s r]
  obtain cl1 s1 where d: "doHeapRegion X cl s r = (False, cl1, s1)" and c: "cl_try_claimed cl1"
    and f: "scan_frame s s1"
    by blast
  from Cons.IH [OF c, of s1]
  obtain cl' s' where i: "collection_set_iterate X rs (cl1, s1) = (cl', s')"
    and c': "cl_try_claimed cl'" and f': "scan_frame s1 s'"
    by blast
  from d i have "collection_set_iterate X (r # rs) (cl, s) = (cl', s')"
    by simp
  with c' scan_frame_trans [OF f f'] show ?case
    by blast
qed

lemma pass_not_try_claimed:
  assumes "\<not> cl_try_claimed cl"
  shows "\<exists>cl' s' es. collection_set_iterate X rs (cl, s) = (cl', s') \<and> \<not> cl_try_claimed cl'
     \<and> trace s' = trace s @ es \<and> list_all (\<lambda>e. \<not> refinement_event e) es
     \<and> (\<forall>q. count_list es (ClaimIter q) =
               (if q \<in> set rs \<and> iter_state_of s q = Unclaimed then 1 else 0)
          \<and> count_list es (StrongCodeRoots q) =
               (if q \<in> set rs \<and> iter_state_of s q = Unclaimed then 1 else 0)
          \<and> count_list es (SetIterComplete q) =
               (if q \<in> set rs \<and> iter_state_of s q = Unclaimed then 1 else 0))
     \<and> (\<forall>q. iter_state_of s' q =
               (if q \<in> set rs \<and> iter_state_of s q = Unclaimed then Complete
                else iter_state_of s q))
     \<and> cset_rs_update_cl s' = cset_rs_update_cl s
     \<and> cards_scanned s' = cards_scanned s"
  using assms
proof (induction rs arbitrary: cl s)
  case Nil
  then show ?case by simp
next
  case (Cons r rs)
  show ?case
  proof (cases "iter_state_of s r = Unclaimed")
    case False
    have d: "doHeapRegion X cl s r = (False, cl, s)"
    proof (cases "iter_state_of s r")
      case Unclaimed
      with False show ?thesis by simp
    next
      case Claimed
      with Cons.prems show ?thesis by (simp add: doHeapRegion_claimed)
    next
      case Complete
      then show ?thesis by (simp add: doHeapRegion_complete)
    qed
    from Cons.IH [OF Cons.prems, of s]
    obtain cl' s' es where i: "collection_set_iterate X rs (cl, s) = (cl', s')"
      and rest: "\<not> cl_try_claimed cl'" "trace s' = trace s @ es"
        "list_all (\<lambda>e. \<not> refinement_event e) es"
        "\<forall>q. count_list es (ClaimIter q) =
               (if q \<in> set rs \<and> iter_state_of s q = Unclaimed then 1 else 0)
          \<and> count_list es (StrongCodeRoots q) =
               (if q \<in> set rs \<and> iter_state_of s q = Unclaimed then 1 else 0)
          \<and> count_list es (SetIterComplete q) =
               (if q \<in> set rs \<and> iter_state_of s q = Unclaimed then 1 else 0)"
        "\<forall>q. iter_state_of s' q =
               (if q \<in> set rs \<and> iter_state_of s q = Unclaimed then Complete
                else iter_state_of s q)"
        "cset_rs_update_cl s' = cset_rs_update_cl s" "cards_scanned s' = cards_scanned s"
      by blast
    from d i have "collection_set_iterate X (r # rs) (cl, s) = (cl', s')"
      by simp
    with rest False show ?thesis
      by (intro exI [where x = cl'] exI [where x = s'] exI [where x = es]) auto
  next
    case True
    from doHeapRegion_unclaimed [OF Cons.prems True, of X]
    obtain cl1 s1 mid where d: "doHeapRegion X cl s r = (False, cl1, s1)"
      and c1: "\<not> cl_try_claimed cl1"
      and t1: "trace s1 = trace s @ [ClaimIter r] @ mid
                     @ [StrongCodeRoots r, TrimQueuePartially, SetIterComplete r]"
      and m: "list_all scan_event mid"
      and st1: "\<forall>q. iter_state_of s1 q = (if q = r then Complete else iter_state_of s q)"
      and fr1: "cset_rs_update_cl s1 = cset_rs_update_cl s" "cards_scanned s1 = cards_scanned s"
      by blast
    from Cons.IH [OF c1, of s1]
    obtain cl' s' es where i: "collection_set_iterate X rs (cl1, s1) = (cl', s')"
      and c': "\<not> cl_try_claimed cl'" and t': "trace s' = trace s1 @ es"
      and nr: "list_all (\<lambda>e. \<not> refinement_event e) es"
      and cnt: "\<forall>q. count_list es (ClaimIter q) =
               (if q \<in> set rs \<and> iter_state_of s1 q = Unclaimed then 1 else 0)
          \<and> count_list es (StrongCodeRoots q) =
               (if q \<in> set rs \<and> iter_state_of s1 q = Unclaimed then 1 else 0)
          \<and> count_list es (SetIterComplete q) =
               (if q \<in> set rs \<and> iter_state_of s1 q = Unclaimed then 1 else 0)"
      and st': "\<forall>q. iter_state_of s' q =
               (if q \<in> set rs \<and> iter_state_of s1 q = Unclaimed then Complete
                else iter_state_of s1 q)"
      and fr': "cset_rs_update_cl s' = cset_rs_update_cl s1" "cards_scanned s' = cards_scanned s1"
      by blast
    let ?es = "[ClaimIter r] @ mid @ [StrongCodeRoots r, TrimQueuePartially, SetIterComplete r] @ es"
    have z: "count_list mid (ClaimIter q) = 0" "count_list mid (StrongCodeRoots q) = 0"
            "count_list mid (SetIterComplete q) = 0" for q
      using m by (simp_all add: count_list_no_claim_event)
    have e: "collection_set_iterate X (r # rs) (cl, s) = (cl', s')"
      using d i by simp
    have tr: "trace s' = trace s @ ?es"
      using t1 t' by simp
    have "list_all (\<lambda>e. \<not> refinement_event e) mid"
      using m by (induction mid) (auto dest: scan_event_other)
    with nr have nr': "list_all (\<lambda>e. \<not> refinement_event e) ?es"
      by simp
    have counts: "count_list ?es (ClaimIter q) =
               (if q \<in> set (r # rs) \<and> iter_state_of s q = Unclaimed then 1 else 0)
          \<and> count_list ?es (StrongCodeRoots q) =
               (if q \<in> set (r # rs) \<and> iter_state_of s q = Unclaimed then 1 else 0)
          \<and> count_list ?es (SetIterComplete q) =
               (if q \<in> set (r # rs) \<and> iter_state_of s q = Unclaimed then 1 else 0)" for q
      using cnt [rule_format, of q] st1 [rule_format, of q] True
      by (cases "q = r") (simp_all add: z)
    have states: "iter_state_of s' q =
               (if q \<in> set (r # rs) \<and> iter_state_of s q = Unclaimed then Complete
                else iter_state_of s q)" for q
      using st' [rule_format, of q] st1 [rule_format, of q] True
      by (cases "q = r") simp_all
    from e c' tr nr' counts states fr1 fr' show ?thesis
      by (intro exI [where x = cl'] exI [where x = s'] exI [where x = ?es]) simp
  qed
qed


lemma scanRS_summary:
  "\<exists>cl1 s1 cl3 s2 es.
       collection_set_iterate_from X w (ScanRSClosure X oc w, s) = (cl1, s1)
     \<and> \<not> cl_try_claimed cl1
     \<and> collection_set_iterate_from X w (set_try_claimed cl1, s1) = (cl3, s2)
     \<and> trace s2 = trace s @ es \<and> list_all (\<lambda>e. \<not> refinement_event e) es
     \<and> (\<forall>q. count_list es (ClaimIter q) =
               (if q \<in> set (collection_set_from X w) \<and> iter_state_of s q = Unclaimed then 1 else 0)
          \<and> count_list es (StrongCodeRoots q) =
               (if q \<in> set (collection_set_from X w) \<and> iter_state_of s q = Unclaimed then 1 else 0)
          \<and> count_list es (SetIterComplete q) =
               (if q \<in> set (collection_set_from X w) \<and> iter_state_of s q = Unclaimed then 1 else 0))
     \<and> (\<forall>q. iter_state_of s2 q =
               (if q \<in> set (collection_set_from X w) \<and> iter_state_of s q = Unclaimed then Complete
                else iter_state_of s q))
     \<and> cset_rs_update_cl s2 = cset_rs_update_cl s
     \<and> cards_scanned s2 = cards_scanned s
     \<and> scanRS X oc w s =
         (case cards_scanned s of
            None \<Rightarrow> None
          | Some a \<Rightarrow> if w < length a
                      then Some (s2\<lparr>cards_scanned := Some (a[w := cl_cards_done cl3])\<rparr>)
                      else None)"
proof -
  let ?rs = "collection_set_from X w"
  have n: "\<not> cl_try_claimed (ScanRSClosure X oc w)"
    by (simp add: ScanRSClosure_def)
  from pass_not_try_claimed [OF n, of X ?rs s]
  obtain cl1 s1 es1 where p1: "collection_set_iterate X ?rs (ScanRSClosure X oc w, s) = (cl1, s1)"
    and c1: "\<not> cl_try_claimed cl1" and t1: "trace s1 = trace s @ es1"
    and nr1: "list_all (\<lambda>e. \<not> refinement_event e) es1"
    and cnt: "\<forall>q. count_list es1 (ClaimIter q) =
               (if q \<in> set ?rs \<and> iter_state_of s q = Unclaimed then 1 else 0)
          \<and> count_list es1 (StrongCodeRoots q) =
               (if q \<in> set ?rs \<and> iter_state_of s q = Unclaimed then 1 else 0)
          \<and> count_list es1 (SetIterComplete q) =
               (if q \<in> set ?rs \<and> iter_state_of s q = Unclaimed then 1 else 0)"
    and st1: "\<forall>q. iter_state_of s1 q =
               (if q \<in> set ?rs \<and> iter_state_of s q = Unclaimed then Complete
                else iter_state_of s q)"
    and fr1: "cset_rs_update_cl s1 = cset_rs_update_cl s" "cards_scanned s1 = cards_scanned s"
    by blast
  have y: "cl_try_claimed (set_try_claimed cl1)"
    by (simp add: set_try_claimed_def)
  from pass_try_claimed [OF y, of X ?rs s1]
  obtain cl3 s2 where p2: "collection_set_iterate X ?rs (set_try_claimed cl1, s1) = (cl3, s2)"
    and f2: "scan_frame s1 s2"
    by blast
  from f2 obtain es2 where t2: "trace s2 = trace s1 @ es2"
    and m2: "list_all scan_event es2"
    by (rule scan_frame_count)
  have tr: "trace s2 = trace s @ (es1 @ es2)"
    using t1 t2 by simp
  have "list_all (\<lambda>e. \<not> refinement_event e) es2"
    using m2 by (induction es2) (auto dest: scan_event_other)
  with nr1 have nr: "list_all (\<lambda>e. \<not> refinement_event e) (es1 @ es2)"
    by simp
  have counts: "count_list (es1 @ es2) (ClaimIter q) =
               (if q \<in> set ?rs \<and> iter_state_of s q = Unclaimed then 1 else 0)
          \<and> count_list (es1 @ es2) (StrongCodeRoots q) =
               (if q \<in> set ?rs \<and> iter_state_of s q = Unclaimed then 1 else 0)
          \<and> count_list (es1 @ es2) (SetIterComplete q) =
               (if q \<in> set ?rs \<and> iter_state_of s q = Unclaimed then 1 else 0)" for q
    using cnt [rule_format, of q] m2 by (simp add: count_list_no_claim_event)
  have states: "iter_state_of s2 q =
               (if q \<in> set ?rs \<and> iter_state_of s q = Unclaimed then Complete
                else iter_state_of s q)" for q
    using st1 [rule_format, of q] scan_frameD(1) [OF f2, of q] by simp
  have fr: "cset_rs_update_cl s2 = cset_rs_update_cl s" "cards_scanned s2 = cards_scanned s"
    using fr1 scan_frameD(4,5) [OF f2] by simp_all
  have sc: "scanRS X oc w s =
         (case cards_scanned s of
            None \<Rightarrow> None
          | Some a \<Rightarrow> if w < length a
                      then Some (s2\<lparr>cards_scanned := Some (a[w := cl_cards_done cl3])\<rparr>)
                      else None)"
    using p1 p2 fr(2) by (simp add: scanRS_def collection_set_iterate_from_def Let_def)
  from p1 c1 p2 tr nr counts states fr sc show ?thesis
    unfolding collection_set_iterate_from_def
    by (intro exI [where x = cl1] exI [where x = s1] exI [where x = cl3] exI [where x = s2]
              exI [where x = "es1 @ es2"]) simp
qed

lemma doHeapRegion_drain:
  assumes "cl_try_claimed cl" and "\<not> iter_is_complete s r"
  shows "\<exists>cl' s' es. doHeapRegion X cl s r = (False, cl', s') \<and> cl_try_claimed cl'
     \<and> trace s' = trace s @ [PushDirtyCardsRegion r,
                              IterClaimedNext r (rs_iter_claimed (hr_rem_set (regions s r)))] @ es
     \<and> list_all scan_event es
     \<and> iter_state_of s' r = iter_state_of s r"
proof -
  let ?s1 = "push_dirty_cards_region r s"
  let ?j = "iter_claimed_next r (cl_block_size cl) ?s1"
  let ?sc = "scan_cards X r (cl_block_size cl) (rs_cards (hr_rem_set (regions ?s1 r))) 0 (fst ?j)
               (cl, snd ?j)"
  have f: "scan_frame (snd ?j) (snd ?sc)" and c: "cl_try_claimed (fst ?sc)"
    using assms(1) by (simp_all add: scan_cards_frame)
  from f obtain es where t: "trace (snd ?sc) = trace (snd ?j) @ es" and m: "list_all scan_event es"
    by (rule scan_frame_count)
  have tj: "trace (snd ?j) = trace s @ [PushDirtyCardsRegion r,
                              IterClaimedNext r (rs_iter_claimed (hr_rem_set (regions s r)))]"
    by (simp add: iter_claimed_next_def Let_def push_dirty_cards_region_def)
  have st: "iter_state_of (snd ?sc) r = iter_state_of s r"
    using scan_frameD(1) [OF f, of r]
    by (simp add: iter_claimed_next_def Let_def push_dirty_cards_region_def iter_state_of_def)
  have "doHeapRegion X cl s r = doHeapRegion_body X cl s r"
    using assms by (simp add: doHeapRegion_def)
  also have "\<dots> = (False, fst ?sc, snd ?sc)"
    using c by (simp add: doHeapRegion_body_def Let_def split_beta)
  finally have d: "doHeapRegion X cl s r = (False, fst ?sc, snd ?sc)" .
  have tt: "trace (snd ?sc) = trace s @ [PushDirtyCardsRegion r,
                              IterClaimedNext r (rs_iter_claimed (hr_rem_set (regions s r)))] @ es"
    unfolding t tj by simp
  from d c tt m st show ?thesis
    by (intro exI [where x = "fst ?sc"] exI [where x = "snd ?sc"] exI [where x = es] conjI)
qed


text \<open>
  C4. \<^verbatim>\<open>doHeapRegion\<close> returns at once, changing nothing, for a region whose iterator
  is complete, in either phase, and in the first phase for a region another worker has
  claimed. In the first phase on an unclaimed region the worker claims the iterator,
  drains the remembered set (scan events only), then scans the region's strong code
  roots and then marks the iterator complete. In the second phase, on a region whose
  iterator is not complete, the worker claims nothing: it takes a block of the
  remembered set and drains it, and leaves the iterator state as it was.
  \<^verbatim>\<open>scanRS\<close> walks the collection set twice, the second time with \<open>try_claimed\<close> set
  and from the state the first walk left: its result is the state after the second
  walk, with the cards done by both walks stored in the worker's slot of
  \<^verbatim>\<open>_cards_scanned\<close>. The first walk claims each region of the collection set that was
  unclaimed once, scans its code roots once and marks it complete once, and no other
  region; the second walk adds scan events only; the walks leave every region that was
  unclaimed complete and the state of every other iterator as it was.
\<close>

theorem C4_claim_once_then_complete:
  "(iter_is_complete s r \<longrightarrow> doHeapRegion X cl s r = (False, cl, s))
   \<and> (\<not> cl_try_claimed cl \<and> iter_state_of s r = Claimed \<longrightarrow>
        doHeapRegion X cl s r = (False, cl, s))
   \<and> (\<not> cl_try_claimed cl \<and> iter_state_of s r = Unclaimed \<longrightarrow>
        (\<exists>cl' s' mid. doHeapRegion X cl s r = (False, cl', s') \<and> iter_is_complete s' r
           \<and> trace s' = trace s @ [ClaimIter r] @ mid
                           @ [StrongCodeRoots r, TrimQueuePartially, SetIterComplete r]
           \<and> list_all scan_event mid))
   \<and> (cl_try_claimed cl \<and> \<not> iter_is_complete s r \<longrightarrow>
        (\<exists>cl' s' es. doHeapRegion X cl s r = (False, cl', s') \<and> cl_try_claimed cl'
           \<and> trace s' = trace s @ [PushDirtyCardsRegion r,
                 IterClaimedNext r (rs_iter_claimed (hr_rem_set (regions s r)))] @ es
           \<and> list_all scan_event es
           \<and> iter_state_of s' r = iter_state_of s r))
   \<and> (\<exists>cl1 s1 cl3 s2 es1 es2.
          collection_set_iterate_from X w (ScanRSClosure X oc w, s) = (cl1, s1)
        \<and> \<not> cl_try_claimed cl1
        \<and> collection_set_iterate_from X w (set_try_claimed cl1, s1) = (cl3, s2)
        \<and> cl_try_claimed (set_try_claimed cl1)
        \<and> scanRS X oc w s =
            (case cards_scanned s of
               None \<Rightarrow> None
             | Some a \<Rightarrow> if w < length a
                         then Some (s2\<lparr>cards_scanned := Some (a[w := cl_cards_done cl3])\<rparr>)
                         else None)
        \<and> trace s1 = trace s @ es1 \<and> trace s2 = trace s1 @ es2
        \<and> list_all scan_event es2
        \<and> (\<forall>q. count_list es1 (ClaimIter q) =
               (if q \<in> set (collection_set_from X w) \<and> iter_state_of s q = Unclaimed then 1 else 0)
             \<and> count_list es1 (StrongCodeRoots q) =
               (if q \<in> set (collection_set_from X w) \<and> iter_state_of s q = Unclaimed then 1 else 0)
             \<and> count_list es1 (SetIterComplete q) =
               (if q \<in> set (collection_set_from X w) \<and> iter_state_of s q = Unclaimed then 1 else 0))
        \<and> (\<forall>q. iter_state_of s2 q =
               (if q \<in> set (collection_set_from X w) \<and> iter_state_of s q = Unclaimed
                then Complete else iter_state_of s q)))"
proof -
  have a1: "iter_is_complete s r \<longrightarrow> doHeapRegion X cl s r = (False, cl, s)"
    by (simp add: doHeapRegion_def)
  have a2: "\<not> cl_try_claimed cl \<and> iter_state_of s r = Claimed \<longrightarrow>
        doHeapRegion X cl s r = (False, cl, s)"
    by (simp add: doHeapRegion_claimed)
  have a3: "\<not> cl_try_claimed cl \<and> iter_state_of s r = Unclaimed \<longrightarrow>
        (\<exists>cl' s' mid. doHeapRegion X cl s r = (False, cl', s') \<and> iter_is_complete s' r
           \<and> trace s' = trace s @ [ClaimIter r] @ mid
                           @ [StrongCodeRoots r, TrimQueuePartially, SetIterComplete r]
           \<and> list_all scan_event mid)"
  proof
    assume a: "\<not> cl_try_claimed cl \<and> iter_state_of s r = Unclaimed"
    from doHeapRegion_unclaimed [of cl s r X] a
    obtain cl' s' mid where d: "doHeapRegion X cl s r = (False, cl', s')"
      and t: "trace s' = trace s @ [ClaimIter r] @ mid
                             @ [StrongCodeRoots r, TrimQueuePartially, SetIterComplete r]"
      and m: "list_all scan_event mid"
      and st: "\<forall>q. iter_state_of s' q = (if q = r then Complete else iter_state_of s q)"
      by blast
    from st have "iter_is_complete s' r"
      by (simp add: iter_is_complete_def iter_state_of_def)
    with d t m show "\<exists>cl' s' mid. doHeapRegion X cl s r = (False, cl', s') \<and> iter_is_complete s' r
             \<and> trace s' = trace s @ [ClaimIter r] @ mid
                             @ [StrongCodeRoots r, TrimQueuePartially, SetIterComplete r]
             \<and> list_all scan_event mid"
      by blast
  qed
  have a4: "cl_try_claimed cl \<and> \<not> iter_is_complete s r \<longrightarrow>
        (\<exists>cl' s' es. doHeapRegion X cl s r = (False, cl', s') \<and> cl_try_claimed cl'
           \<and> trace s' = trace s @ [PushDirtyCardsRegion r,
                 IterClaimedNext r (rs_iter_claimed (hr_rem_set (regions s r)))] @ es
           \<and> list_all scan_event es
           \<and> iter_state_of s' r = iter_state_of s r)"
    using doHeapRegion_drain [of cl s r X] by blast
  have a5: "\<exists>cl1 s1 cl3 s2 es1 es2.
          collection_set_iterate_from X w (ScanRSClosure X oc w, s) = (cl1, s1)
        \<and> \<not> cl_try_claimed cl1
        \<and> collection_set_iterate_from X w (set_try_claimed cl1, s1) = (cl3, s2)
        \<and> cl_try_claimed (set_try_claimed cl1)
        \<and> scanRS X oc w s =
            (case cards_scanned s of
               None \<Rightarrow> None
             | Some a \<Rightarrow> if w < length a
                         then Some (s2\<lparr>cards_scanned := Some (a[w := cl_cards_done cl3])\<rparr>)
                         else None)
        \<and> trace s1 = trace s @ es1 \<and> trace s2 = trace s1 @ es2
        \<and> list_all scan_event es2
        \<and> (\<forall>q. count_list es1 (ClaimIter q) =
               (if q \<in> set (collection_set_from X w) \<and> iter_state_of s q = Unclaimed then 1 else 0)
             \<and> count_list es1 (StrongCodeRoots q) =
               (if q \<in> set (collection_set_from X w) \<and> iter_state_of s q = Unclaimed then 1 else 0)
             \<and> count_list es1 (SetIterComplete q) =
               (if q \<in> set (collection_set_from X w) \<and> iter_state_of s q = Unclaimed then 1 else 0))
        \<and> (\<forall>q. iter_state_of s2 q =
               (if q \<in> set (collection_set_from X w) \<and> iter_state_of s q = Unclaimed
                then Complete else iter_state_of s q))"
  proof -
    let ?rs = "collection_set_from X w"
    have n: "\<not> cl_try_claimed (ScanRSClosure X oc w)"
      by (simp add: ScanRSClosure_def)
    from pass_not_try_claimed [OF n, of X ?rs s]
    obtain cl1 s1 es1 where p1: "collection_set_iterate X ?rs (ScanRSClosure X oc w, s) = (cl1, s1)"
      and c1: "\<not> cl_try_claimed cl1" and t1: "trace s1 = trace s @ es1"
      and cnt: "\<forall>q. count_list es1 (ClaimIter q) =
                 (if q \<in> set ?rs \<and> iter_state_of s q = Unclaimed then 1 else 0)
            \<and> count_list es1 (StrongCodeRoots q) =
                 (if q \<in> set ?rs \<and> iter_state_of s q = Unclaimed then 1 else 0)
            \<and> count_list es1 (SetIterComplete q) =
                 (if q \<in> set ?rs \<and> iter_state_of s q = Unclaimed then 1 else 0)"
      and st1: "\<forall>q. iter_state_of s1 q =
                 (if q \<in> set ?rs \<and> iter_state_of s q = Unclaimed then Complete
                  else iter_state_of s q)"
      and fr1: "cards_scanned s1 = cards_scanned s"
      by blast
    have y: "cl_try_claimed (set_try_claimed cl1)"
      by (simp add: set_try_claimed_def)
    from pass_try_claimed [OF y, of X ?rs s1]
    obtain cl3 s2 where p2: "collection_set_iterate X ?rs (set_try_claimed cl1, s1) = (cl3, s2)"
      and f2: "scan_frame s1 s2"
      by blast
    from f2 obtain es2 where t2: "trace s2 = trace s1 @ es2"
      and m2: "list_all scan_event es2"
      by (rule scan_frame_count)
    have states: "\<forall>q. iter_state_of s2 q =
                 (if q \<in> set ?rs \<and> iter_state_of s q = Unclaimed then Complete
                  else iter_state_of s q)"
      using st1 scan_frameD(1) [OF f2] by simp
    have fr: "cards_scanned s2 = cards_scanned s"
      using fr1 scan_frameD(5) [OF f2] by simp
    have sc: "scanRS X oc w s =
           (case cards_scanned s of
              None \<Rightarrow> None
            | Some a \<Rightarrow> if w < length a
                        then Some (s2\<lparr>cards_scanned := Some (a[w := cl_cards_done cl3])\<rparr>)
                        else None)"
      using p1 p2 fr by (simp add: scanRS_def collection_set_iterate_from_def Let_def)
    from p1 c1 p2 y sc t1 t2 m2 cnt states show ?thesis
      unfolding collection_set_iterate_from_def
      by (intro exI [where x = cl1] exI [where x = s1] exI [where x = cl3] exI [where x = s2]
                exI [where x = es1] exI [where x = es2] conjI)
  qed
  from a1 a2 a3 a4 a5 show ?thesis
    by (intro conjI)
qed

lemma scanRS_Some:
  assumes "cards_scanned s = Some a" and "w < length a"
  shows "\<exists>s'. scanRS X oc w s = Some s'"
  using scanRS_summary [of X w oc s] assms by auto

lemma ex_claimed_scanRS:
  "map_option (\<lambda>s'. (trace s', cards_scanned s', iter_state_of s' 2))
       (scanRS (ex_ext True []) 7 0 ex_state_claimed)
   = Some ([PushDirtyCardsRegion 2, IterClaimedNext 2 0, PushDirtyCardsRegion 0,
            CardStore 5 CLAIMED, ScanMemRegion 0 (320, 384), IterClaimedNext 2 2],
           Some [1, 0], Claimed)"
  by (simp add: scanRS_def collection_set_iterate_from_def doHeapRegion_def doHeapRegion_body_def
        ScanRSClosure_def set_try_claimed_def ex_ext_def ex_state_claimed_def ex_state_def ex_region_def
        iter_is_complete_def claim_iter_def push_dirty_cards_region_def iter_claimed_next_def
        per_card_work_def scanCard_def is_card_dirty_def is_card_claimed_def set_card_claimed_def
        store_card_def emit_def upd_rem_set_def MemRegion_sz_def mr_intersection_def mr_is_empty_def
        mr_word_size_def mr_start_def mr_end_def iter_state_of_def Let_def)

theorem C4_witness:
  "(\<exists>s'. scanRS (ex_ext True []) 7 0 ex_state_scan = Some s'
        \<and> iter_state_of s' 2 = Complete
        \<and> count_list (trace s') (ClaimIter 2) = 1
        \<and> count_list (trace s') (StrongCodeRoots 2) = 1
        \<and> doHeapRegion (ex_ext True []) (ScanRSClosure (ex_ext True []) 8 1) s' 2
            = (False, ScanRSClosure (ex_ext True []) 8 1, s'))
   \<and> collection_set_iterate_from (ex_ext True []) 0
          (ScanRSClosure (ex_ext True []) 7 0, ex_state_claimed)
        = (ScanRSClosure (ex_ext True []) 7 0, ex_state_claimed)
   \<and> (\<exists>s'. scanRS (ex_ext True []) 7 0 ex_state_claimed = Some s'
        \<and> trace s' = [PushDirtyCardsRegion 2, IterClaimedNext 2 0, PushDirtyCardsRegion 0,
                      CardStore 5 CLAIMED, ScanMemRegion 0 (320, 384), IterClaimedNext 2 2]
        \<and> cards_scanned s' = Some [1, 0]
        \<and> iter_state_of s' 2 = Claimed)"
proof -
  let ?X = "ex_ext True []"
  let ?cl = "ScanRSClosure ?X 7 0"
  have c: "cards_scanned ex_state_scan = Some [0, 0]" "trace ex_state_scan = []"
          "iter_state_of ex_state_scan 2 = Unclaimed" "collection_set_from ?X 0 = [2]"
    by (simp_all add: ex_state_scan_def ex_state_def iter_state_of_def ex_ext_def)
  from C4_claim_once_then_complete [of ex_state_scan 2 ?X "ScanRSClosure ?X 8 1" 0 7,
         THEN conjunct2, THEN conjunct2, THEN conjunct2, THEN conjunct2]
  obtain cl3 :: scan_rs_closure and s1 s2 :: g1_state and es1 es2 :: "event list" where
        sc: "scanRS ?X 7 0 ex_state_scan =
            (case cards_scanned ex_state_scan of
               None \<Rightarrow> None
             | Some a \<Rightarrow> if 0 < length a
                         then Some (s2\<lparr>cards_scanned := Some (a[0 := cl_cards_done cl3])\<rparr>)
                         else None)"
    and t1: "trace s1 = trace ex_state_scan @ es1" and t2: "trace s2 = trace s1 @ es2"
    and m2: "list_all scan_event es2"
    and cnt: "\<forall>q. count_list es1 (ClaimIter q) =
               (if q \<in> set (collection_set_from ?X 0) \<and> iter_state_of ex_state_scan q = Unclaimed then 1 else 0)
             \<and> count_list es1 (StrongCodeRoots q) =
               (if q \<in> set (collection_set_from ?X 0) \<and> iter_state_of ex_state_scan q = Unclaimed then 1 else 0)
             \<and> count_list es1 (SetIterComplete q) =
               (if q \<in> set (collection_set_from ?X 0) \<and> iter_state_of ex_state_scan q = Unclaimed then 1 else 0)"
    and st: "\<forall>q. iter_state_of s2 q =
               (if q \<in> set (collection_set_from ?X 0) \<and> iter_state_of ex_state_scan q = Unclaimed
                then Complete else iter_state_of ex_state_scan q)"
    by (elim exE conjE) (rule that, assumption+)
  define a where "a = [0, 0][0 := cl_cards_done cl3]"
  have s': "scanRS ?X 7 0 ex_state_scan = Some (s2\<lparr>cards_scanned := Some a\<rparr>)"
    unfolding sc a_def by (simp add: c)
  have "trace s2 = es1 @ es2" "list_all scan_event es2" "count_list es1 (ClaimIter 2) = 1"
      "count_list es1 (StrongCodeRoots 2) = 1" "iter_state_of s2 2 = Complete"
    using t1 t2 m2 cnt [rule_format, of 2] st [rule_format, of 2] by (simp_all add: c)
  then have p: "iter_state_of (s2\<lparr>cards_scanned := Some a\<rparr>) 2 = Complete"
      "count_list (trace (s2\<lparr>cards_scanned := Some a\<rparr>)) (ClaimIter 2) = 1"
      "count_list (trace (s2\<lparr>cards_scanned := Some a\<rparr>)) (StrongCodeRoots 2) = 1"
    by (simp_all add: iter_state_of_def count_list_no_claim_event)
  from p(1) C4_claim_once_then_complete [of "s2\<lparr>cards_scanned := Some a\<rparr>" 2 ?X "ScanRSClosure ?X 8 1" 0 7]
  have d: "doHeapRegion ?X (ScanRSClosure ?X 8 1) (s2\<lparr>cards_scanned := Some a\<rparr>) 2
         = (False, ScanRSClosure ?X 8 1, s2\<lparr>cards_scanned := Some a\<rparr>)"
    by (simp add: iter_is_complete_def iter_state_of_def)
  have k: "\<not> cl_try_claimed ?cl" "iter_state_of ex_state_claimed 2 = Claimed"
    by (simp_all add: ScanRSClosure_def ex_state_claimed_def iter_state_of_def)
  from C4_claim_once_then_complete [of ex_state_claimed 2 ?X ?cl 0 7] k
  have "doHeapRegion ?X ?cl ex_state_claimed 2 = (False, ?cl, ex_state_claimed)"
    by simp
  then have w1: "collection_set_iterate_from ?X 0 (?cl, ex_state_claimed) = (?cl, ex_state_claimed)"
    by (simp add: collection_set_iterate_from_def c(4))
  from ex_claimed_scanRS
  have w2: "\<exists>s'. scanRS ?X 7 0 ex_state_claimed = Some s'
        \<and> trace s' = [PushDirtyCardsRegion 2, IterClaimedNext 2 0, PushDirtyCardsRegion 0,
                      CardStore 5 CLAIMED, ScanMemRegion 0 (320, 384), IterClaimedNext 2 2]
        \<and> cards_scanned s' = Some [1, 0]
        \<and> iter_state_of s' 2 = Claimed"
    by auto
  from s' p d w1 w2 show ?thesis
    by blast
qed

subsection \<open>The pause: closure slots and the card table\<close>

lemma closure_of_worker_cong:
  "cset_rs_update_cl s' = cset_rs_update_cl s \<Longrightarrow> closure_of_worker s' w = closure_of_worker s w"
  by (simp add: closure_of_worker_def)

lemma closure_of_worker_simps [simp]:
  "closure_of_worker (store_card c v s) w = closure_of_worker s w"
  "closure_of_worker (emit es s) w = closure_of_worker s w"
  "closure_of_worker (apply_outcome out s) w = closure_of_worker s w"
  by (simp_all add: closure_of_worker_def)

lemma refine_card_during_gc_frame:
  assumes "refine_card_during_gc X s c w = (b, s')"
  shows "cset_rs_update_cl s' = cset_rs_update_cl s \<and> cards_scanned s' = cards_scanned s
       \<and> into_cset_buffers s' = into_cset_buffers s
       \<and> (\<exists>es. trace s' = trace s @ es
              \<and> list_all (iterates_with
                    (closure_of_worker s w)) es)"
proof (cases "gc_filters X s c")
  case None
  with assms show ?thesis
    by (simp add: refine_card_during_gc_def)
next
  case (Some t)
  obtain p start r lim where t: "t = (p, start, r, lim)"
    by (cases t)
  from assms Some t show ?thesis
    by (auto simp: refine_card_during_gc_def gc_process_def gc_iterate_def Let_def)
qed

lemma do_card_ptr_frame:
  assumes "do_card_ptr X c w s = (b, s')"
  shows "cset_rs_update_cl s' = cset_rs_update_cl s \<and> cards_scanned s' = cards_scanned s
       \<and> (\<exists>es. trace s' = trace s @ es
              \<and> list_all (iterates_with
                    (closure_of_worker s w)) es)"
proof -
  obtain b1 s1 where r: "refine_card_during_gc X s c w = (b1, s1)"
    by (cases "refine_card_during_gc X s c w")
  from refine_card_during_gc_frame [OF r]
  obtain es where f: "cset_rs_update_cl s1 = cset_rs_update_cl s" "cards_scanned s1 = cards_scanned s"
    "trace s1 = trace s @ es"
    "list_all (iterates_with
        (closure_of_worker s w)) es"
    by blast
  show ?thesis
  proof (cases b1)
    case True
    with assms r have "s' = emit [EnqueueIntoCSet c]
                   ((emit [TrimQueuePartially] s1)\<lparr>into_cset_buffers := into_cset_buffers s1 @ [c]\<rparr>)"
      by (simp add: do_card_ptr_def)
    with f show ?thesis
      by (intro conjI exI [where x = "es @ [TrimQueuePartially, EnqueueIntoCSet c]"])
         (simp_all add: emit_def)
  next
    case False
    with assms r have "s' = s1"
      by (simp add: do_card_ptr_def)
    with f show ?thesis
      by blast
  qed
qed

lemma apply_closure_to_cards_frame:
  "cset_rs_update_cl (apply_closure_to_cards X w cards s) = cset_rs_update_cl s
   \<and> cards_scanned (apply_closure_to_cards X w cards s) = cards_scanned s
   \<and> (\<exists>es. trace (apply_closure_to_cards X w cards s) = trace s @ es
          \<and> list_all (iterates_with
                (closure_of_worker s w)) es)"
proof (induction cards arbitrary: s)
  case Nil
  then show ?case by simp
next
  case (Cons c cards)
  obtain b s1 where d: "do_card_ptr X c w s = (b, s1)"
    by (cases "do_card_ptr X c w s")
  from do_card_ptr_frame [OF d]
  obtain es where f: "cset_rs_update_cl s1 = cset_rs_update_cl s" "cards_scanned s1 = cards_scanned s"
    "trace s1 = trace s @ es"
    "list_all (iterates_with
        (closure_of_worker s w)) es"
    by blast
  show ?case
  proof (cases b)
    case False
    with d f show ?thesis by auto
  next
    case True
    from Cons.IH [of s1] f(1) closure_of_worker_cong [OF f(1), of w]
    obtain es' where g: "cset_rs_update_cl (apply_closure_to_cards X w cards s1) = cset_rs_update_cl s"
      "cards_scanned (apply_closure_to_cards X w cards s1) = cards_scanned s1"
      "trace (apply_closure_to_cards X w cards s1) = trace s1 @ es'"
      "list_all (iterates_with
        (closure_of_worker s w)) es'"
      by auto
    from True d f g show ?thesis
      by (intro conjI exI [where x = "es @ es'"]) simp_all
  qed
qed

lemma updateRS_frame:
  "cset_rs_update_cl (updateRS X w s) = cset_rs_update_cl s
   \<and> cards_scanned (updateRS X w s) = cards_scanned s
   \<and> (\<exists>es. trace (updateRS X w s) = trace s @ es
          \<and> list_all (iterates_with
                (closure_of_worker s w)) es)"
proof -
  have c: "closure_of_worker (s\<lparr>completed_buffers := []\<rparr>) w = closure_of_worker s w"
    by (simp add: closure_of_worker_def)
  from apply_closure_to_cards_frame [of X w "completed_buffers s" "s\<lparr>completed_buffers := []\<rparr>"]
  show ?thesis
    unfolding updateRS_def c by simp
qed

lemma not_refinement_iterates_with:
  "list_all (\<lambda>e. \<not> refinement_event e) es \<Longrightarrow> list_all (iterates_with c) es"
proof (induction es)
  case Nil
  then show ?case by simp
next
  case (Cons e es)
  then show ?case by (cases e) simp_all
qed

lemma oops_into_collection_set_do_frame:
  "oops_into_collection_set_do X oc w s =
     (if w < n_workers s then
        (case cards_scanned s of
           None \<Rightarrow> None
         | Some a \<Rightarrow> if w < length a then oops_into_collection_set_do X oc w s else None)
      else None)
   \<and> (\<forall>s'. oops_into_collection_set_do X oc w s = Some s' \<longrightarrow>
         w < n_workers s
       \<and> cset_rs_update_cl s' = (cset_rs_update_cl s)[w := None]
       \<and> (\<exists>a v. cards_scanned s = Some a \<and> w < length a \<and> cards_scanned s' = Some (a[w := v]))
       \<and> (\<exists>es. trace s' = trace s @ es \<and> list_all (iterates_with (Some oc)) es))
   \<and> (\<forall>a. w < n_workers s \<and> cards_scanned s = Some a \<and> w < length a \<longrightarrow>
         (\<exists>s'. oops_into_collection_set_do X oc w s = Some s'))"
proof -
  let ?s1 = "s\<lparr>cset_rs_update_cl := (cset_rs_update_cl s)[w := Some oc]\<rparr>"
  let ?s2 = "updateRS X w ?s1"
  have c: "closure_of_worker ?s1 w = Some oc" if "w < n_workers s"
    using that by (simp add: closure_of_worker_def n_workers_def)
  from updateRS_frame [of X w ?s1]
  obtain es1 where u: "cset_rs_update_cl ?s2 = (cset_rs_update_cl s)[w := Some oc]"
    "cards_scanned ?s2 = cards_scanned s" "trace ?s2 = trace s @ es1"
    and i0: "list_all (iterates_with (closure_of_worker ?s1 w)) es1"
    by auto
  have i1: "list_all (iterates_with (Some oc)) es1" if "w < n_workers s"
    using i0 c [OF that] by simp
  have "\<exists>(cl3 :: scan_rs_closure) s3 es2.
       trace s3 = trace ?s2 @ es2 \<and> list_all (\<lambda>e. \<not> refinement_event e) es2
     \<and> cset_rs_update_cl s3 = cset_rs_update_cl ?s2 \<and> cards_scanned s3 = cards_scanned ?s2
     \<and> scanRS X oc w ?s2 =
         (case cards_scanned ?s2 of
            None \<Rightarrow> None
          | Some a \<Rightarrow> if w < length a
                      then Some (s3\<lparr>cards_scanned := Some (a[w := cl_cards_done cl3])\<rparr>)
                      else None)"
    using scanRS_summary [of X w oc ?s2]
    by (elim exE conjE) (intro exI conjI, assumption+)
  then obtain cl3 :: scan_rs_closure and s3 es2 where
        t: "trace s3 = trace ?s2 @ es2" and nr: "list_all (\<lambda>e. \<not> refinement_event e) es2"
    and fr: "cset_rs_update_cl s3 = cset_rs_update_cl ?s2" "cards_scanned s3 = cards_scanned ?s2"
    and sc: "scanRS X oc w ?s2 =
         (case cards_scanned ?s2 of
            None \<Rightarrow> None
          | Some a \<Rightarrow> if w < length a
                      then Some (s3\<lparr>cards_scanned := Some (a[w := cl_cards_done cl3])\<rparr>)
                      else None)"
    by blast
  have d: "oops_into_collection_set_do X oc w s =
     (if \<not> w < n_workers s then None
      else case cards_scanned s of
             None \<Rightarrow> None
           | Some a \<Rightarrow>
               if w < length a
               then Some (s3\<lparr>cards_scanned := Some (a[w := cl_cards_done cl3]),
                             cset_rs_update_cl := (cset_rs_update_cl s)[w := None]\<rparr>)
               else None)"
    using sc u fr by (simp add: oops_into_collection_set_do_def Let_def split: option.splits)
  have i2: "list_all (iterates_with (Some oc)) es2"
    by (rule not_refinement_iterates_with [OF nr])
  show ?thesis
  proof (intro conjI allI impI)
    show "oops_into_collection_set_do X oc w s =
     (if w < n_workers s then
        (case cards_scanned s of
           None \<Rightarrow> None
         | Some a \<Rightarrow> if w < length a then oops_into_collection_set_do X oc w s else None)
      else None)"
      by (simp add: d split: option.splits)
  next
    fix s' assume s': "oops_into_collection_set_do X oc w s = Some s'"
    with d show w: "w < n_workers s"
      by (simp split: if_splits)
    from s' d show "cset_rs_update_cl s' = (cset_rs_update_cl s)[w := None]"
      by (auto split: if_splits option.splits)
    from s' d show "\<exists>a v. cards_scanned s = Some a \<and> w < length a \<and> cards_scanned s' = Some (a[w := v])"
      by (auto split: if_splits option.splits)
    from s' d have "trace s' = trace s @ (es1 @ es2)"
      using t u(3) by (auto split: if_splits option.splits)
    with i1 [OF w] i2 show "\<exists>es. trace s' = trace s @ es \<and> list_all (iterates_with (Some oc)) es"
      by (intro exI [where x = "es1 @ es2"]) simp
  next
    fix a assume "w < n_workers s \<and> cards_scanned s = Some a \<and> w < length a"
    with d show "\<exists>s'. oops_into_collection_set_do X oc w s = Some s'"
      by simp
  qed
qed


lemma all_None_update:
  "list_all (\<lambda>x. x = None) l \<Longrightarrow> list_all (\<lambda>x. x = None) (l[w := None])"
  by (cases "w < length l") (auto simp: list_all_length nth_list_update)

lemma run_workers_slots:
  assumes "run_workers X calls s = Some s'" and "list_all (\<lambda>x. x = None) (cset_rs_update_cl s)"
  shows "list_all (\<lambda>x. x = None) (cset_rs_update_cl s')"
  using assms
proof (induction calls arbitrary: s)
  case Nil
  then show ?case by simp
next
  case (Cons c calls)
  from Cons.prems(1) obtain s1 where
    o: "oops_into_collection_set_do X (fst c) (snd c) s = Some s1" and
    r: "run_workers X calls s1 = Some s'"
    by (auto split: option.splits)
  from oops_into_collection_set_do_frame [of X "fst c" "snd c" s] o
  have "cset_rs_update_cl s1 = (cset_rs_update_cl s)[snd c := None]"
    by blast
  with Cons.prems(2) have "list_all (\<lambda>x. x = None) (cset_rs_update_cl s1)"
    by (simp add: all_None_update)
  from Cons.IH [OF r this] show ?case .
qed

lemma run_workers_Some:
  assumes "cards_scanned s = Some a" and "length a = n_workers s"
      and "list_all (\<lambda>c. snd c < n_workers s) calls"
  shows "\<exists>s' a'. run_workers X calls s = Some s' \<and> cards_scanned s' = Some a'"
  using assms
proof (induction calls arbitrary: s a)
  case Nil
  then show ?case by simp
next
  case (Cons c calls)
  from Cons.prems have w: "snd c < n_workers s" "snd c < length a"
    by simp_all
  from oops_into_collection_set_do_frame [of X "fst c" "snd c" s] w Cons.prems(1)
  obtain s1 where o: "oops_into_collection_set_do X (fst c) (snd c) s = Some s1"
    by blast
  from oops_into_collection_set_do_frame [of X "fst c" "snd c" s] o Cons.prems(1)
  obtain v where f: "cset_rs_update_cl s1 = (cset_rs_update_cl s)[snd c := None]"
    "cards_scanned s1 = Some (a[snd c := v])"
    by auto
  from f(1) have n: "n_workers s1 = n_workers s"
    by (simp add: n_workers_def)
  from Cons.IH [OF f(2), unfolded n] Cons.prems(2,3)
  obtain s' a' where "run_workers X calls s1 = Some s'" "cards_scanned s' = Some a'"
    by auto
  with o show ?case
    by simp
qed

lemma prepare_eq:
  "prepare_for_oops_into_collection_set_do s =
     (if cards_scanned s = None
      then Some ((concatenate_logs (s\<lparr>refine_cte_cl_concurrency := False\<rparr>))
                   \<lparr>cards_scanned := Some (replicate (n_workers s) 0), total_cards_scanned := 0\<rparr>)
      else None)"
  by (simp add: prepare_for_oops_into_collection_set_do_def concatenate_logs_def n_workers_def)

lemma cleanup_Some:
  assumes "cleanup_after_oops_into_collection_set_do s = Some s'"
  shows "card_table s' = (\<lambda>_. CLEAN)" and "cset_rs_update_cl s' = cset_rs_update_cl s"
    and "cards_scanned s' = None" and "into_cset_buffers s' = []"
  using assms
  by (auto simp: cleanup_after_oops_into_collection_set_do_def cleanUpCardTable_def
                 merge_bufferlists_def clear_into_cset_def clean_card_val_def Let_def emit_def
           split: option.splits if_splits)

lemma cleanup_defined:
  "cards_scanned s = Some a \<Longrightarrow> \<exists>s'. cleanup_after_oops_into_collection_set_do s = Some s'"
  by (simp add: cleanup_after_oops_into_collection_set_do_def Let_def)

lemma refine_card_during_gc_trace:
  assumes "gc_filters X s c = Some (p, start, r, lim)"
  shows "trace (snd (refine_card_during_gc X s c w)) =
           trace s @ [CardStore c CLEAN,
                      OopsOnCard True r (start, min lim (start + card_size_in_words X))
                        (closure_of_worker s w)]"
  using gc_filters_Some [OF assms] assms
  by (simp add: refine_card_during_gc_def gc_process_def gc_iterate_def Let_def
                clean_card_val_def closure_of_worker_def)

lemma apply_closure_to_cards_first:
  assumes "gc_filters X s c = Some (p, start, r, lim)"
  shows "\<exists>es. trace (apply_closure_to_cards X w (c # rest) s) =
           trace s @ [CardStore c CLEAN,
                      OopsOnCard True r (start, min lim (start + card_size_in_words X))
                        (closure_of_worker s w)] @ es"
proof -
  let ?ev = "[CardStore c CLEAN,
              OopsOnCard True r (start, min lim (start + card_size_in_words X))
                (closure_of_worker s w)]"
  obtain b s0 where r: "refine_card_during_gc X s c w = (b, s0)"
    by (cases "refine_card_during_gc X s c w")
  with refine_card_during_gc_trace [OF assms, of w] have t0: "trace s0 = trace s @ ?ev"
    by simp
  obtain s1 where d: "do_card_ptr X c w s = (True, s1)"
    and t1: "\<exists>es. trace s1 = trace s0 @ es"
    using r by (cases b) (simp_all add: do_card_ptr_def)
  from t1 obtain es1 where t1': "trace s1 = trace s0 @ es1"
    by blast
  from apply_closure_to_cards_frame [of X w rest s1]
  obtain es2 where t2: "trace (apply_closure_to_cards X w rest s1) = trace s1 @ es2"
    by blast
  have "trace (apply_closure_to_cards X w (c # rest) s) = trace s @ ?ev @ (es1 @ es2)"
    using d t0 t1' t2 by simp
  then show ?thesis
    by (rule exI)
qed

lemma oops_into_collection_set_do_steps:
  assumes "oops_into_collection_set_do X oc w s = Some s'"
  shows "w < n_workers s"
    and "closure_of_worker (s\<lparr>cset_rs_update_cl := (cset_rs_update_cl s)[w := Some oc]\<rparr>) w = Some oc"
    and "\<exists>s3. scanRS X oc w
                 (updateRS X w (s\<lparr>cset_rs_update_cl := (cset_rs_update_cl s)[w := Some oc]\<rparr>))
               = Some s3
             \<and> closure_of_worker s3 w = Some oc
             \<and> (\<exists>es. trace s3 =
                   trace (updateRS X w (s\<lparr>cset_rs_update_cl := (cset_rs_update_cl s)[w := Some oc]\<rparr>)) @ es)
             \<and> s' = s3\<lparr>cset_rs_update_cl := (cset_rs_update_cl s3)[w := None]\<rparr>"
proof -
  let ?s1 = "s\<lparr>cset_rs_update_cl := (cset_rs_update_cl s)[w := Some oc]\<rparr>"
  let ?s2 = "updateRS X w ?s1"
  from assms show w: "w < n_workers s"
    by (simp add: oops_into_collection_set_do_def split: if_splits)
  then show c: "closure_of_worker ?s1 w = Some oc"
    by (simp add: closure_of_worker_def n_workers_def)
  from assms w obtain s3 where sc: "scanRS X oc w ?s2 = Some s3"
    and s': "s' = s3\<lparr>cset_rs_update_cl := (cset_rs_update_cl s3)[w := None]\<rparr>"
    by (auto simp: oops_into_collection_set_do_def Let_def split: option.splits)
  have "\<exists>(s2 :: g1_state) es a v. trace s2 = trace ?s2 @ es
          \<and> cset_rs_update_cl s2 = cset_rs_update_cl ?s2
          \<and> s3 = s2\<lparr>cards_scanned := Some (a[w := v])\<rparr>"
    using scanRS_summary [of X w oc ?s2] sc
    by (elim exE conjE) (auto split: option.splits if_splits)
  then obtain s2 :: g1_state and es a v where t: "trace s2 = trace ?s2 @ es"
    and u: "cset_rs_update_cl s2 = cset_rs_update_cl ?s2"
    and e: "s3 = s2\<lparr>cards_scanned := Some (a[w := v])\<rparr>"
    by blast
  have "cset_rs_update_cl s3 = cset_rs_update_cl ?s1"
    using e u updateRS_frame [of X w ?s1] by simp
  then have "closure_of_worker s3 w = closure_of_worker ?s1 w"
    by (rule closure_of_worker_cong)
  with c have "closure_of_worker s3 w = Some oc"
    by simp
  moreover have "\<exists>es. trace s3 = trace ?s2 @ es"
    using e t by simp
  ultimately show "\<exists>s3. scanRS X oc w ?s2 = Some s3
             \<and> closure_of_worker s3 w = Some oc
             \<and> (\<exists>es. trace s3 = trace ?s2 @ es)
             \<and> s' = s3\<lparr>cset_rs_update_cl := (cset_rs_update_cl s3)[w := None]\<rparr>"
    using sc s' by blast
qed

lemma oops_into_collection_set_do_first_card:
  assumes "oops_into_collection_set_do X oc w s = Some s'"
      and "completed_buffers s = c # rest"
      and "gc_filters X s c = Some (p, start, r, lim)"
  shows "\<exists>es. trace s' = trace s @ [CardStore c CLEAN,
                  OopsOnCard True r (start, min lim (start + card_size_in_words X)) (Some oc)] @ es"
proof -
  let ?s1 = "s\<lparr>cset_rs_update_cl := (cset_rs_update_cl s)[w := Some oc]\<rparr>"
  let ?s0 = "?s1\<lparr>completed_buffers := []\<rparr>"
  let ?ev = "[CardStore c CLEAN,
              OopsOnCard True r (start, min lim (start + card_size_in_words X)) (Some oc)]"
  from oops_into_collection_set_do_steps [OF assms(1)]
  obtain s3 es3 where c: "closure_of_worker ?s1 w = Some oc"
    and t3: "trace s3 = trace (updateRS X w ?s1) @ es3"
    and s': "s' = s3\<lparr>cset_rs_update_cl := (cset_rs_update_cl s3)[w := None]\<rparr>"
    by blast
  have "gc_filters X ?s0 c = gc_filters X s c"
    by (simp add: gc_filters_def Let_def)
  with assms(3) have g: "gc_filters X ?s0 c = Some (p, start, r, lim)"
    by simp
  have "closure_of_worker ?s0 w = closure_of_worker ?s1 w"
    by (rule closure_of_worker_cong) simp
  with c have c0: "closure_of_worker ?s0 w = Some oc"
    by simp
  from apply_closure_to_cards_first [OF g, of w rest]
  obtain es where "trace (apply_closure_to_cards X w (c # rest) ?s0) = trace s @ ?ev @ es"
    unfolding c0 by auto
  then have "trace (updateRS X w ?s1) = trace s @ ?ev @ es"
    using assms(2) by (simp add: updateRS_def)
  with t3 s' have "trace s' = trace s @ ?ev @ (es @ es3)"
    by simp
  then show ?thesis
    by (rule exI)
qed

text \<open>
  C6. When \<^verbatim>\<open>cleanup_after_oops_into_collection_set_do\<close> returns, every byte of the card
  table is CLEAN and the closure slots are as they were before it.
  \<^verbatim>\<open>oops_into_collection_set_do\<close> for a worker first stores the closure in the worker's
  slot: its result is that of \<^verbatim>\<open>updateRS\<close> and then \<^verbatim>\<open>scanRS\<close> run from the state
  with the closure in the slot, the slot still holds the closure when \<^verbatim>\<open>scanRS\<close>
  returns, and only then is it emptied; the other slots are as they were. Every
  in-pause refinement of the call reads the stashed closure; in particular the first
  card of the completed buffers, if it passes the filters, is cleaned and iterated with
  that closure before anything else happens. The call returns for a worker below
  \<^verbatim>\<open>n_workers()\<close> in a prepared pause. The constructor leaves every slot empty; so a
  whole pause (prepare, the workers' calls, cleanup) begun with every slot empty ends
  with every card CLEAN and every slot empty. Such a pause does return when the pause
  was not already prepared and every call names a worker below \<^verbatim>\<open>n_workers()\<close>.
\<close>

theorem C6_cleanup_clean_and_slots_empty:
  "(\<forall>s'. cleanup_after_oops_into_collection_set_do s = Some s' \<longrightarrow>
        (\<forall>c. card_table s' c = CLEAN) \<and> cset_rs_update_cl s' = cset_rs_update_cl s)
   \<and> (\<forall>s'. oops_into_collection_set_do X oc w s = Some s' \<longrightarrow>
        w < n_workers s
      \<and> closure_of_worker (s\<lparr>cset_rs_update_cl := (cset_rs_update_cl s)[w := Some oc]\<rparr>) w = Some oc
      \<and> (\<exists>s3. scanRS X oc w
                 (updateRS X w (s\<lparr>cset_rs_update_cl := (cset_rs_update_cl s)[w := Some oc]\<rparr>))
               = Some s3
             \<and> closure_of_worker s3 w = Some oc
             \<and> s' = s3\<lparr>cset_rs_update_cl := (cset_rs_update_cl s3)[w := None]\<rparr>)
      \<and> cset_rs_update_cl s' = (cset_rs_update_cl s)[w := None]
      \<and> closure_of_worker s' w = None
      \<and> (\<exists>es. trace s' = trace s @ es \<and> list_all (iterates_with (Some oc)) es))
   \<and> (\<forall>s' c rest p start r lim.
        oops_into_collection_set_do X oc w s = Some s' \<and> completed_buffers s = c # rest
        \<and> gc_filters X s c = Some (p, start, r, lim) \<longrightarrow>
        (\<exists>es. trace s' = trace s @ [CardStore c CLEAN,
                  OopsOnCard True r (start, min lim (start + card_size_in_words X)) (Some oc)] @ es))
   \<and> (\<forall>a. w < n_workers s \<and> cards_scanned s = Some a \<and> w < length a \<longrightarrow>
        (\<exists>s'. oops_into_collection_set_do X oc w s = Some s'))
   \<and> (\<forall>n s'. G1RemSet_ctor n s = Some s' \<longrightarrow>
        n_workers s' = n \<and> list_all (\<lambda>x. x = None) (cset_rs_update_cl s'))
   \<and> (list_all (\<lambda>x. x = None) (cset_rs_update_cl s) \<longrightarrow>
        (\<forall>s'. pause X calls s = Some s' \<longrightarrow>
           (\<forall>c. card_table s' c = CLEAN) \<and> list_all (\<lambda>x. x = None) (cset_rs_update_cl s')))
   \<and> (cards_scanned s = None \<and> list_all (\<lambda>c. snd c < n_workers s) calls \<longrightarrow>
        (\<exists>s'. pause X calls s = Some s'))"
proof -
  have cleanup: "\<forall>s'. cleanup_after_oops_into_collection_set_do s = Some s' \<longrightarrow>
        (\<forall>c. card_table s' c = CLEAN) \<and> cset_rs_update_cl s' = cset_rs_update_cl s"
    using cleanup_Some(1,2) by simp
  have call: "\<forall>s'. oops_into_collection_set_do X oc w s = Some s' \<longrightarrow>
        w < n_workers s
      \<and> closure_of_worker (s\<lparr>cset_rs_update_cl := (cset_rs_update_cl s)[w := Some oc]\<rparr>) w = Some oc
      \<and> (\<exists>s3. scanRS X oc w
                 (updateRS X w (s\<lparr>cset_rs_update_cl := (cset_rs_update_cl s)[w := Some oc]\<rparr>))
               = Some s3
             \<and> closure_of_worker s3 w = Some oc
             \<and> s' = s3\<lparr>cset_rs_update_cl := (cset_rs_update_cl s3)[w := None]\<rparr>)
      \<and> cset_rs_update_cl s' = (cset_rs_update_cl s)[w := None]
      \<and> closure_of_worker s' w = None
      \<and> (\<exists>es. trace s' = trace s @ es \<and> list_all (iterates_with (Some oc)) es)"
  proof (intro allI impI)
    fix s' assume o: "oops_into_collection_set_do X oc w s = Some s'"
    from oops_into_collection_set_do_frame [of X oc w s] o
    have w: "w < n_workers s" and u: "cset_rs_update_cl s' = (cset_rs_update_cl s)[w := None]"
      and e: "\<exists>es. trace s' = trace s @ es \<and> list_all (iterates_with (Some oc)) es"
      by blast+
    from w u have n: "closure_of_worker s' w = None"
      by (simp add: closure_of_worker_def n_workers_def)
    from oops_into_collection_set_do_steps(2,3) [OF o]
    have st: "closure_of_worker (s\<lparr>cset_rs_update_cl := (cset_rs_update_cl s)[w := Some oc]\<rparr>) w = Some oc"
      and tie: "\<exists>s3. scanRS X oc w
                 (updateRS X w (s\<lparr>cset_rs_update_cl := (cset_rs_update_cl s)[w := Some oc]\<rparr>))
               = Some s3
             \<and> closure_of_worker s3 w = Some oc
             \<and> s' = s3\<lparr>cset_rs_update_cl := (cset_rs_update_cl s3)[w := None]\<rparr>"
      by blast+
    from w st tie u n e show "w < n_workers s
      \<and> closure_of_worker (s\<lparr>cset_rs_update_cl := (cset_rs_update_cl s)[w := Some oc]\<rparr>) w = Some oc
      \<and> (\<exists>s3. scanRS X oc w
                 (updateRS X w (s\<lparr>cset_rs_update_cl := (cset_rs_update_cl s)[w := Some oc]\<rparr>))
               = Some s3
             \<and> closure_of_worker s3 w = Some oc
             \<and> s' = s3\<lparr>cset_rs_update_cl := (cset_rs_update_cl s3)[w := None]\<rparr>)
      \<and> cset_rs_update_cl s' = (cset_rs_update_cl s)[w := None]
      \<and> closure_of_worker s' w = None
      \<and> (\<exists>es. trace s' = trace s @ es \<and> list_all (iterates_with (Some oc)) es)"
      by (intro conjI)
  qed
  have first: "\<forall>s' c rest p start r lim.
        oops_into_collection_set_do X oc w s = Some s' \<and> completed_buffers s = c # rest
        \<and> gc_filters X s c = Some (p, start, r, lim) \<longrightarrow>
        (\<exists>es. trace s' = trace s @ [CardStore c CLEAN,
                  OopsOnCard True r (start, min lim (start + card_size_in_words X)) (Some oc)] @ es)"
    using oops_into_collection_set_do_first_card [of X oc w s] by blast
  have returns: "\<forall>a. w < n_workers s \<and> cards_scanned s = Some a \<and> w < length a \<longrightarrow>
        (\<exists>s'. oops_into_collection_set_do X oc w s = Some s')"
    using oops_into_collection_set_do_frame [of X oc w s] by blast
  have ctor: "\<forall>n s'. G1RemSet_ctor n s = Some s' \<longrightarrow>
        n_workers s' = n \<and> list_all (\<lambda>x. x = None) (cset_rs_update_cl s')"
    by (auto simp: G1RemSet_ctor_def n_workers_def list_all_length split: if_splits)
  have whole: "list_all (\<lambda>x. x = None) (cset_rs_update_cl s) \<longrightarrow>
        (\<forall>s'. pause X calls s = Some s' \<longrightarrow>
           (\<forall>c. card_table s' c = CLEAN) \<and> list_all (\<lambda>x. x = None) (cset_rs_update_cl s'))"
  proof (intro allI impI)
    fix s'
    assume e: "list_all (\<lambda>x. x = None) (cset_rs_update_cl s)"
    assume p: "pause X calls s = Some s'"
    from p obtain s1 s2 where
      p1: "prepare_for_oops_into_collection_set_do s = Some s1" and
      p2: "run_workers X calls s1 = Some s2" and
      p3: "cleanup_after_oops_into_collection_set_do s2 = Some s'"
      by (auto simp: pause_def split: option.splits)
    from p1 have "cset_rs_update_cl s1 = cset_rs_update_cl s"
      by (auto simp: prepare_eq concatenate_logs_def split: if_splits)
    with e run_workers_slots [OF p2] have "list_all (\<lambda>x. x = None) (cset_rs_update_cl s2)"
      by simp
    with cleanup_Some [OF p3]
    show "(\<forall>c. card_table s' c = CLEAN) \<and> list_all (\<lambda>x. x = None) (cset_rs_update_cl s')"
      by simp
  qed
  have defined: "cards_scanned s = None \<and> list_all (\<lambda>c. snd c < n_workers s) calls \<longrightarrow>
        (\<exists>s'. pause X calls s = Some s')"
  proof
    assume a: "cards_scanned s = None \<and> list_all (\<lambda>c. snd c < n_workers s) calls"
    let ?s1 = "(concatenate_logs (s\<lparr>refine_cte_cl_concurrency := False\<rparr>))
                   \<lparr>cards_scanned := Some (replicate (n_workers s) 0), total_cards_scanned := 0\<rparr>"
    from a have p1: "prepare_for_oops_into_collection_set_do s = Some ?s1"
      by (simp add: prepare_eq)
    have n: "n_workers ?s1 = n_workers s"
      by (simp add: n_workers_def concatenate_logs_def)
    have "\<exists>s' a'. run_workers X calls ?s1 = Some s' \<and> cards_scanned s' = Some a'"
      by (rule run_workers_Some [where a = "replicate (n_workers s) 0"]) (use a n in simp_all)
    then obtain s2 a2 where p2: "run_workers X calls ?s1 = Some s2" and "cards_scanned s2 = Some a2"
      by blast
    from cleanup_defined [OF this(2)] obtain s' where
      "cleanup_after_oops_into_collection_set_do s2 = Some s'"
      by blast
    with p1 p2 show "\<exists>s'. pause X calls s = Some s'"
      by (simp add: pause_def)
  qed
  from cleanup call first returns ctor whole defined show ?thesis
    by (intro conjI)
qed

theorem C6_witness:
  "(\<exists>s'. pause (ex_ext True []) [(7, 0), (8, 1)] ex_state_pause = Some s'
      \<and> card_table s' = (\<lambda>c. CLEAN) \<and> list_all (\<lambda>x. x = None) (cset_rs_update_cl s'))
   \<and> (\<exists>s' es. oops_into_collection_set_do (ex_ext True []) 7 0
                  (ex_state_scan\<lparr>completed_buffers := [3]\<rparr>) = Some s'
      \<and> trace s' = [CardStore 3 CLEAN, OopsOnCard True 0 (192, 256) (Some 7)] @ es
      \<and> cset_rs_update_cl s' = [None, None])"
proof -
  let ?X = "ex_ext True []"
  have a: "cards_scanned ex_state_pause = None" "n_workers ex_state_pause = 2"
          "cset_rs_update_cl ex_state_pause = [None, None]"
    by (simp_all add: ex_state_pause_def ex_state_scan_def ex_state_def n_workers_def)
  note t = C6_cleanup_clean_and_slots_empty
             [of ex_state_pause ?X 7 0 "[(7, 0), (8, 1)]"]
  from t a obtain s' where p: "pause ?X [(7, 0), (8, 1)] ex_state_pause = Some s'"
    by auto
  from t a p
  have c: "\<forall>c. card_table s' c = CLEAN" "list_all (\<lambda>x. x = None) (cset_rs_update_cl s')"
    by auto
  have "card_table s' = (\<lambda>c. CLEAN)"
    using c(1) by (simp add: fun_eq_iff)
  with p c have w1: "\<exists>s'. pause ?X [(7, 0), (8, 1)] ex_state_pause = Some s'
      \<and> card_table s' = (\<lambda>c. CLEAN) \<and> list_all (\<lambda>x. x = None) (cset_rs_update_cl s')"
    by blast
  let ?s = "ex_state_scan\<lparr>completed_buffers := [3]\<rparr>"
  have b: "n_workers ?s = 2" "cards_scanned ?s = Some [0, 0]" "completed_buffers ?s = [3]"
          "cset_rs_update_cl ?s = [None, None]" "trace ?s = []" "card_size_in_words ?X = 64"
    by (simp_all add: ex_state_scan_def ex_state_def n_workers_def ex_ext_def)
  have g: "gc_filters ?X ?s 3 = Some (3, 192, 0, 4096)"
    by (simp add: gc_filters_def ex_ext_def ex_state_scan_def ex_state_def ex_region_def
                  dirty_card_val_def is_old_or_humongous_def Let_def)
  note u = C6_cleanup_clean_and_slots_empty [of ?s ?X 7 0 "[]"]
  from u [THEN conjunct2, THEN conjunct2, THEN conjunct2, THEN conjunct1] b(1,2)
  obtain s2 where o: "oops_into_collection_set_do ?X 7 0 ?s = Some s2"
    by auto
  from u [THEN conjunct2, THEN conjunct1] o
  have k: "cset_rs_update_cl s2 = [None, None]"
    by (simp add: b)
  from u [THEN conjunct2, THEN conjunct2, THEN conjunct1] o b(3) g
  obtain es where "trace s2 = [CardStore 3 CLEAN, OopsOnCard True 0 (192, 256) (Some 7)] @ es"
    by (auto simp: b)
  with o k have w2: "\<exists>s' es. oops_into_collection_set_do ?X 7 0 ?s = Some s'
      \<and> trace s' = [CardStore 3 CLEAN, OopsOnCard True 0 (192, 256) (Some 7)] @ es
      \<and> cset_rs_update_cl s' = [None, None]"
    by blast
  from w1 w2 show ?thesis
    by (rule conjI)
qed

subsection \<open>The rebuild\<close>

text \<open>
  C8. A humongous object counts as live exactly when the bitmap marks its start or TARS
  lies above TAMS. For a humongous region and a chunk \<open>mr\<close>: when the object is live,
  the rebuild iterates its references once, restricted to \<open>mr\<close> (and reports the bytes
  of \<open>mr\<close>, or none when TAMS is the region's bottom); when it is dead, the rebuild
  iterates nothing and reports zero marked bytes.
\<close>

theorem C8_humongous_live_or_nothing:
  "is_humongous_live H obj tams tars = (isMarked H obj \<or> tams < tars)
   \<and> (isHumongous hr \<longrightarrow>
        rebuild_rem_set_in_region H tams tars hr mr =
          (if isMarked H (rb_humongous_start_bottom hr) \<or> tams < tars
           then Some (if tams \<noteq> rb_bottom hr then mr_byte_size mr else 0,
                      [OopIterateIn (rb_humongous_start_bottom hr) mr])
           else Some (0, [])))"
  by (simp add: is_humongous_live_def rebuild_rem_set_in_region_def Let_def)

theorem C8_witness:
  "rebuild_rem_set_in_region (ex_humongous_heap True) 20 20 (ex_humongous_region 20) (8, 16)
     = Some (64, [OopIterateIn 0 (8, 16)])
   \<and> rebuild_rem_set_in_region (ex_humongous_heap False) 0 20 (ex_humongous_region 0) (8, 16)
     = Some (0, [OopIterateIn 0 (8, 16)])
   \<and> rebuild_rem_set_in_region (ex_humongous_heap False) 20 20 (ex_humongous_region 20) (8, 16)
     = Some (0, [])"
proof -
  have h: "isHumongous (ex_humongous_region tams)" for tams
    by (simp add: isHumongous_def ex_humongous_region_def)
  have m: "isMarked (ex_humongous_heap True) 0" "\<not> isMarked (ex_humongous_heap False) 0"
          "rb_humongous_start_bottom (ex_humongous_region tams) = 0"
          "rb_bottom (ex_humongous_region tams) = 0" "mr_byte_size (8, 16) = 64" for tams
    by (simp_all add: ex_humongous_heap_def ex_humongous_region_def mr_byte_size_def
                      mr_word_size_def HeapWordSize_def)
  from C8_humongous_live_or_nothing [of "ex_humongous_heap True" 0 20 20 "ex_humongous_region 20" "(8, 16)"]
       C8_humongous_live_or_nothing [of "ex_humongous_heap False" 0 0 20 "ex_humongous_region 0" "(8, 16)"]
       C8_humongous_live_or_nothing [of "ex_humongous_heap False" 0 20 20 "ex_humongous_region 20" "(8, 16)"]
  show ?thesis
    by (simp add: h m)
qed

subsection \<open>The walk over the live objects of a chunk\<close>

declare getNextMarkedWordAddress.simps [simp del]
declare live_obj_loop.simps [simp del]
declare rebuild_chunks.simps [simp del]

lemma getNext_ge: "addr \<le> limit \<Longrightarrow> addr \<le> getNextMarkedWordAddress bm addr limit"
proof (induction bm addr limit rule: getNextMarkedWordAddress.induct)
  case (1 bm addr limit)
  then show ?case
    by (subst getNextMarkedWordAddress.simps) auto
qed

lemma getNext_marked: "addr < limit \<Longrightarrow> bm addr \<Longrightarrow> getNextMarkedWordAddress bm addr limit = addr"
  by (subst getNextMarkedWordAddress.simps) simp

lemma getNext_past: "limit \<le> addr \<Longrightarrow> getNextMarkedWordAddress bm addr limit = limit"
  by (subst getNextMarkedWordAddress.simps) simp

lemma getNext_skip:
  "p \<le> q \<Longrightarrow> \<forall>a. p \<le> a \<and> a < q \<longrightarrow> \<not> bm a \<Longrightarrow>
     getNextMarkedWordAddress bm p limit = getNextMarkedWordAddress bm q limit"
proof (induction "q - p" arbitrary: p)
  case 0
  then show ?case by simp
next
  case (Suc n)
  then have pq: "p < q" and nb: "\<not> bm p" and n: "n = q - (p + 1)"
    by auto
  have step: "getNextMarkedWordAddress bm (p + 1) limit = getNextMarkedWordAddress bm q limit"
    using Suc.hyps(1) [OF n] pq Suc.prems(2) by auto
  show ?case
  proof (cases "p < limit")
    case True
    with nb step show ?thesis
      by (subst getNextMarkedWordAddress.simps) simp
  next
    case False
    with pq show ?thesis
      by (simp add: getNext_past)
  qed
qed

lemma move_if_below_tams_ge: "q \<le> move_if_below_tams H tams mr q"
  by (auto simp: move_if_below_tams_def is_below_tams_def has_next_def bitmap_limit_def
           intro!: getNext_ge)

lemma boundary_ge: "boundary os q x \<Longrightarrow> q \<le> x"
proof (induction os arbitrary: q)
  case Nil
  then show ?case by simp
next
  case (Cons ob os)
  from Cons.prems have "x = q \<or> boundary os (q + o_size ob) x"
    by simp
  then show ?case
  proof
    assume "x = q" then show ?thesis by simp
  next
    assume "boundary os (q + o_size ob) x"
    from Cons.IH [OF this] show ?thesis by simp
  qed
qed

lemma loop_done:
  "mr_end mr \<le> cur \<Longrightarrow> live_obj_loop H tams mr cur mw evs = Some (mw, evs)"
  by (subst live_obj_loop.simps) (simp add: has_next_def)

lemma loop_step:
  assumes "cur < mr_end mr" and "0 < obj_size H cur"
  shows "live_obj_loop H tams mr cur mw evs =
           live_obj_loop H tams mr (move_if_below_tams H tams mr (cur + obj_size H cur))
             (if cur < tams then mw + fst (scan_for_references H cur mr) else mw)
             (evs @ snd (scan_for_references H cur mr))"
proof -
  have "cur < move_if_below_tams H tams mr (cur + obj_size H cur)"
    using move_if_below_tams_ge [of "cur + obj_size H cur" H tams mr] assms(2) by simp
  with assms(1) show ?thesis
    by (subst live_obj_loop.simps) (simp add: has_next_def move_to_next_def split_beta Let_def)
qed


lemma walk_loop:
  assumes "laid_out H os p" and "list_all (\<lambda>ob. 0 < o_size ob) os"
      and "tams \<le> p \<or> boundary os p tams"
      and "mr_end mr \<le> p + sum_list (map o_size os)"
  shows "\<exists>evs'. live_obj_loop H tams mr (move_if_below_tams H tams mr p) mw evs =
                  Some (mw + walk_words H os p tams mr, evs')"
  using assms
proof (induction os arbitrary: p mw evs)
  case Nil
  then have "mr_end mr \<le> p" by simp
  then show ?case
    by (simp add: move_if_below_tams_def has_next_def loop_done)
next
  case (Cons ob os)
  let ?q = "p + o_size ob"
  show ?case
  proof (cases "mr_end mr \<le> p")
    case True
    then show ?thesis
      by (simp add: move_if_below_tams_def has_next_def loop_done)
  next
    case False
    then have pd: "p < mr_end mr" by simp
    from Cons.prems(1) have sz: "obj_size H p = o_size ob" and mk: "isMarked H p = o_marked ob"
      and inside: "\<forall>a. p < a \<and> a < ?q \<longrightarrow> \<not> isMarked H a" and lay: "laid_out H os ?q"
      by simp_all
    from Cons.prems(2) have pos: "0 < o_size ob" and poss: "list_all (\<lambda>ob. 0 < o_size ob) os"
      by simp_all
    have bnd: "tams \<le> ?q \<or> boundary os ?q tams"
      using Cons.prems(3) by auto
    have lim: "mr_end mr \<le> ?q + sum_list (map o_size os)"
      using Cons.prems(4) by simp
    note IH = Cons.IH [OF lay poss bnd lim]
    have step: "live_obj_loop H tams mr p mw evs =
           live_obj_loop H tams mr (move_if_below_tams H tams mr ?q)
             (if p < tams then mw + fst (scan_for_references H p mr) else mw)
             (evs @ snd (scan_for_references H p mr))"
      using loop_step [OF pd, of H tams mw evs] pos sz by simp
    show ?thesis
    proof (cases "p < tams")
      case False
      then have "move_if_below_tams H tams mr p = p"
        by (simp add: move_if_below_tams_def is_below_tams_def)
      with step False IH [of mw "evs @ snd (scan_for_references H p mr)"] pd show ?thesis
        by simp
    next
      case True
      have plim: "p < bitmap_limit tams mr"
        using True pd by (simp add: bitmap_limit_def)
      have mv: "move_if_below_tams H tams mr p =
                  getNextMarkedWordAddress (isMarked H) p (bitmap_limit tams mr)"
        using True pd by (simp add: move_if_below_tams_def is_below_tams_def has_next_def)
      show ?thesis
      proof (cases "o_marked ob")
        case True
        with mk plim have "move_if_below_tams H tams mr p = p"
          by (simp add: mv getNext_marked)
        with step \<open>p < tams\<close> True pd
             IH [of "mw + fst (scan_for_references H p mr)" "evs @ snd (scan_for_references H p mr)"]
        show ?thesis
          by (simp add: add.assoc)
      next
        case False
        from \<open>p < tams\<close> Cons.prems(3) have "boundary os ?q tams"
          by auto
        then have qt: "?q \<le> tams"
          by (rule boundary_ge)
        have "\<forall>a. p \<le> a \<and> a < ?q \<longrightarrow> \<not> isMarked H a"
          using inside mk False by (auto simp: le_less)
        then have sk: "move_if_below_tams H tams mr p =
                  getNextMarkedWordAddress (isMarked H) ?q (bitmap_limit tams mr)"
          unfolding mv by (intro getNext_skip) simp_all
        have same: "live_obj_loop H tams mr
                      (getNextMarkedWordAddress (isMarked H) ?q (bitmap_limit tams mr)) mw evs =
                    live_obj_loop H tams mr (move_if_below_tams H tams mr ?q) mw evs"
        proof (cases "?q < tams \<and> ?q < mr_end mr")
          case True
          then show ?thesis
            by (simp add: move_if_below_tams_def is_below_tams_def has_next_def)
        next
          case False
          then have m: "move_if_below_tams H tams mr ?q = ?q"
            by (auto simp: move_if_below_tams_def is_below_tams_def has_next_def)
          from False have "bitmap_limit tams mr \<le> ?q"
            by (auto simp: bitmap_limit_def)
          then have g: "getNextMarkedWordAddress (isMarked H) ?q (bitmap_limit tams mr) =
                          bitmap_limit tams mr"
            by (rule getNext_past)
          show ?thesis
          proof (cases "bitmap_limit tams mr = ?q")
            case True
            with m g show ?thesis by simp
          next
            case False
            with \<open>bitmap_limit tams mr \<le> ?q\<close> qt have e: "bitmap_limit tams mr = mr_end mr"
              and "mr_end mr \<le> ?q"
              by (auto simp: bitmap_limit_def min_def split: if_splits)
            then have "live_obj_loop H tams mr ?q mw evs = Some (mw, evs)"
              and "live_obj_loop H tams mr (bitmap_limit tams mr) mw evs = Some (mw, evs)"
              by (simp_all add: loop_done)
            then show ?thesis
              unfolding m g by simp
          qed
        qed
        from IH [of mw evs] same sk False pd show ?thesis
          by simp
      qed
    qed
  qed
qed

lemma counted_words_zero: "x \<le> q \<Longrightarrow> counted_words os q tams x = 0"
  by (induction os arbitrary: q) auto

lemma walk_counted:
  assumes "laid_out H os q" and "c \<le> q"
  shows "walk_words H os q tams (c, d) = counted_words os q tams d"
  using assms
proof (induction os arbitrary: q)
  case Nil
  then show ?case by simp
next
  case (Cons ob os)
  from Cons.prems(1) have sz: "obj_size H q = o_size ob" and ar: "is_objArray H q = o_is_array ob"
    and lay: "laid_out H os (q + o_size ob)"
    by simp_all
  have IH: "walk_words H os (q + o_size ob) tams (c, d) = counted_words os (q + o_size ob) tams d"
    using Cons.IH [OF lay] Cons.prems(2) by simp
  show ?case
  proof (cases "d \<le> q")
    case True
    then show ?thesis
      by (simp add: mr_end_def counted_words_zero)
  next
    case False
    have "fst (scan_for_references H q (c, d)) =
            (if o_is_array ob then min (q + o_size ob) d - q else o_size ob)"
      using False Cons.prems(2)
      by (auto simp: scan_for_references_def Let_def sz ar mr_contains_def MemRegion_sz_def
                     mr_start_def mr_end_def mr_intersection_def mr_word_size_def min_def max_def)
    with False IH show ?thesis
      by (simp add: mr_end_def)
  qed
qed


lemma first_scan:
  assumes "obj_size H p = n" and "is_objArray H p = arr" and "p \<le> c" and "c < p + n" and "c < d"
  shows "fst (scan_for_references H p (c, d)) =
           (if arr then (if p = c \<and> p + n \<le> d then n else min d (p + n) - c) else n)"
  using assms
  by (auto simp: scan_for_references_def Let_def mr_contains_def MemRegion_sz_def
                 mr_start_def mr_end_def mr_intersection_def mr_word_size_def min_def max_def)

lemma chunk_counts:
  assumes "laid_out H os p" and "list_all (\<lambda>ob. 0 < o_size ob) os"
      and "tams \<le> p \<or> boundary os p tams"
      and "p \<le> c" and "c < d" and "d \<le> p + sum_list (map o_size os)"
  shows "\<exists>w evs. live_obj_loop H tams (c, d)
                    (LiveObjIterator H tams (c, d) (block_start H c)) 0 [] = Some (w, evs)
               \<and> counted_words os p tams c + w = counted_words os p tams d"
  using assms
proof (induction os arbitrary: p)
  case Nil
  then show ?case by simp
next
  case (Cons ob os)
  let ?q = "p + o_size ob"
  let ?mr = "(c, d)"
  from Cons.prems(1) have sz: "obj_size H p = o_size ob" and ar: "is_objArray H p = o_is_array ob"
    and mk: "isMarked H p = o_marked ob" and lay: "laid_out H os ?q"
    and bs: "\<forall>a. p \<le> a \<and> a < ?q \<longrightarrow> block_start H a = p"
    by simp_all
  from Cons.prems(2) have poss: "list_all (\<lambda>ob. 0 < o_size ob) os"
    by simp
  have bnd: "tams \<le> ?q \<or> boundary os ?q tams"
    using Cons.prems(3) by auto
  have lim: "d \<le> ?q + sum_list (map o_size os)"
    using Cons.prems(6) by simp
  show ?case
  proof (cases "?q \<le> c")
    case True
    from Cons.IH [OF lay poss bnd True Cons.prems(5) lim]
    obtain w evs where
      l: "live_obj_loop H tams ?mr (LiveObjIterator H tams ?mr (block_start H c)) 0 [] = Some (w, evs)"
      and e: "counted_words os ?q tams c + w = counted_words os ?q tams d"
      by blast
    from True Cons.prems(4,5) e
    have "counted_words (ob # os) p tams c + w = counted_words (ob # os) p tams d"
      by (simp add: min_def)
    with l show ?thesis by blast
  next
    case False
    then have cq: "c < ?q" by simp
    with bs Cons.prems(4) have b: "block_start H c = p"
      by simp
    have z: "counted_words os ?q tams c = 0"
      using cq by (simp add: counted_words_zero)
    have wc: "walk_words H os ?q tams ?mr = counted_words os ?q tams d"
      using lay cq by (intro walk_counted) simp_all
    have pd: "p < d"
      using Cons.prems(4,5) by simp
    show ?thesis
    proof (cases "is_live H tams p p \<and> p < c \<and> \<not> o_is_array ob")
      case True
      then have "LiveObjIterator H tams ?mr p = move_if_below_tams H tams ?mr ?q"
        by (simp add: LiveObjIterator_def Let_def mr_start_def ar sz)
      moreover from walk_loop [OF lay poss bnd, of ?mr 0 "[]"] lim
      obtain evs where "live_obj_loop H tams ?mr (move_if_below_tams H tams ?mr ?q) 0 [] =
                          Some (walk_words H os ?q tams ?mr, evs)"
        by (auto simp: mr_end_def)
      moreover have "counted_words (ob # os) p tams c + walk_words H os ?q tams ?mr =
                       counted_words (ob # os) p tams d"
        using True pd by (simp add: z wc)
      ultimately show ?thesis
        unfolding b by simp
    next
      case False
      have "LiveObjIterator H tams ?mr p = move_if_below_tams H tams ?mr p"
      proof (cases "is_live H tams p p")
        case True
        with False have l: "LiveObjIterator H tams ?mr p = p"
          by (auto simp: LiveObjIterator_def Let_def mr_start_def ar)
        show ?thesis
        proof (cases "p < tams")
          case True
          with \<open>is_live H tams p p\<close> have "isMarked H p"
            by (simp add: is_live_def is_below_tams_def)
          with True pd show ?thesis
            by (simp add: l move_if_below_tams_def is_below_tams_def has_next_def mr_end_def
                          bitmap_limit_def getNext_marked)
        next
          case False
          then show ?thesis
            by (simp add: l move_if_below_tams_def is_below_tams_def)
        qed
      next
        case False
        then have "p < tams"
          by (simp add: is_live_def is_below_tams_def)
        with False pd show ?thesis
          by (simp add: LiveObjIterator_def Let_def move_if_below_tams_def is_below_tams_def
                        has_next_def mr_end_def)
      qed
      moreover from walk_loop [OF Cons.prems(1,2,3), of ?mr 0 "[]"] Cons.prems(6)
      obtain evs where "live_obj_loop H tams ?mr (move_if_below_tams H tams ?mr p) 0 [] =
                          Some (walk_words H (ob # os) p tams ?mr, evs)"
        by (auto simp: mr_end_def)
      moreover have "counted_words (ob # os) p tams c + walk_words H (ob # os) p tams ?mr =
                       counted_words (ob # os) p tams d"
      proof (cases "p < tams \<and> o_marked ob")
        case nm: False
        with pd show ?thesis
          by (auto simp: z wc mr_end_def)
      next
        case True
        then have live: "is_live H tams p p"
          by (simp add: is_live_def mk)
        have fs: "fst (scan_for_references H p ?mr) =
           (if o_is_array ob then (if p = c \<and> ?q \<le> d then o_size ob else min d ?q - c)
            else o_size ob)"
          by (rule first_scan [OF sz ar Cons.prems(4) cq Cons.prems(5)])
        show ?thesis
        proof (cases "o_is_array ob")
          case arr: True
          with True pd cq Cons.prems(4,5) show ?thesis
            by (auto simp: z wc mr_end_def fs min_def)
        next
          case narr: False
          with False live have "\<not> p < c"
            by auto
          with True narr pd show ?thesis
            by (simp add: z wc mr_end_def fs)
        qed
      qed
      ultimately show ?thesis
        unfolding b by simp
    qed
  qed
qed


lemma counted_words_all:
  assumes "tams \<le> x" and "tams \<le> p \<or> boundary os p tams"
  shows "counted_words os p tams x = marked_words os p tams"
  using assms(2)
proof (induction os arbitrary: p)
  case Nil
  then show ?case by simp
next
  case (Cons ob os)
  have bnd: "tams \<le> p + o_size ob \<or> boundary os (p + o_size ob) tams"
    using Cons.prems by auto
  have "p + o_size ob \<le> tams" if "p < tams"
    using that Cons.prems boundary_ge [of os "p + o_size ob" tams] by auto
  with Cons.IH [OF bnd] assms(1) show ?case
    by (auto simp: min_def)
qed

text \<open>The chunk of the region that the loop of \<open>doHeapRegion\<close> takes next.\<close>

lemma next_chunk_eq:
  assumes "bottom \<le> cur" and "0 < chunk"
  shows "mr_intersection (bottom, tars) (MemRegion_sz cur chunk) =
           (if cur < tars then (cur, min tars (cur + chunk)) else (0, 0))"
  using assms
  by (auto simp: mr_intersection_def MemRegion_sz_def mr_start_def mr_end_def Let_def
                 max_def min_def)

lemma region_chunk_not_humongous:
  assumes "\<not> isHumongous hr"
      and "live_obj_loop H tams mr (LiveObjIterator H tams mr (block_start H (mr_start mr))) 0 []
             = Some (w, es)"
  shows "rebuild_rem_set_in_region H tams tars hr mr = Some (w * HeapWordSize, es)"
  using assms by (simp add: rebuild_rem_set_in_region_def)

lemma rebuild_chunks_counts:
  assumes lay: "laid_out H os (rb_bottom hr)"
      and pos: "list_all (\<lambda>ob. 0 < o_size ob) os"
      and bnd: "boundary os (rb_bottom hr) tams"
      and tt: "tams \<le> tars"
      and tp: "tars \<le> rb_bottom hr + sum_list (map o_size os)"
      and te: "tars \<le> rb_end hr"
      and nh: "\<not> isHumongous hr"
      and ch: "0 < chunk"
      and const: "\<forall>t x. cm_top_at_rebuild_start cm t (rb_hrm_index hr) = Some x \<longrightarrow> x = tars"
      and cur: "rb_bottom hr \<le> cur"
      and inv: "tot = counted_words os (rb_bottom hr) tams cur * HeapWordSize"
  shows "(\<forall>res. rebuild_chunks H cm hr tams chunk cur t tot evs = Some res
              \<and> rr_exit res = PastLoop \<longrightarrow>
              rr_total_marked_bytes res = marked_words os (rb_bottom hr) tams * HeapWordSize)
       \<and> ((\<forall>t'. \<not> cm_has_aborted cm t'
                 \<and> cm_top_at_rebuild_start cm t' (rb_hrm_index hr) = Some tars) \<longrightarrow>
            (\<exists>res. rebuild_chunks H cm hr tams chunk cur t tot evs = Some res
                  \<and> rr_exit res = PastLoop \<and> rr_final_tars res = Some tars
                  \<and> \<not> rr_return res))"
  using cur inv
proof (induction "rb_end hr - cur" arbitrary: cur t tot evs rule: less_induct)
  case less
  let ?b = "rb_bottom hr"
  let ?goal = "\<lambda>r. (\<forall>res. r = Some res \<and> rr_exit res = PastLoop \<longrightarrow>
              rr_total_marked_bytes res = marked_words os ?b tams * HeapWordSize)
       \<and> ((\<forall>t'. \<not> cm_has_aborted cm t'
                 \<and> cm_top_at_rebuild_start cm t' (rb_hrm_index hr) = Some tars) \<longrightarrow>
            (\<exists>res. r = Some res \<and> rr_exit res = PastLoop \<and> rr_final_tars res = Some tars
                  \<and> \<not> rr_return res))"
  let ?past = "Some \<lparr>rr_return = cm_has_aborted cm t, rr_exit = PastLoop,
                       rr_total_marked_bytes = tot,
                       rr_final_tars = cm_top_at_rebuild_start cm t (rb_hrm_index hr),
                       rr_events = evs\<rparr>"
  have all: "counted_words os ?b tams x = marked_words os ?b tams" if "tams \<le> x" for x
    using that bnd by (intro counted_words_all) simp_all
  have past: "?goal ?past" if "tars \<le> cur"
    using that tt less.prems(2) all [of cur] by simp
  show ?case
  proof (cases "cur < rb_end hr")
    case False
    then have "rebuild_chunks H cm hr tams chunk cur t tot evs = ?past"
      by (subst rebuild_chunks.simps) simp
    moreover from False te have "tars \<le> cur" by simp
    ultimately show ?thesis
      using past by simp
  next
    case True
    show ?thesis
    proof (cases "cm_top_at_rebuild_start cm t (rb_hrm_index hr)")
      case None
      with True have "rebuild_chunks H cm hr tams chunk cur t tot evs =
           Some \<lparr>rr_return = False, rr_exit = EagerlyReclaimed, rr_total_marked_bytes = tot,
                 rr_final_tars = None, rr_events = evs\<rparr>"
        by (subst rebuild_chunks.simps) simp
      moreover have "\<exists>t'. cm_has_aborted cm t'
                 \<or> cm_top_at_rebuild_start cm t' (rb_hrm_index hr) \<noteq> Some tars"
        using None by (intro exI [where x = t]) simp
      ultimately show ?thesis
        by simp
    next
      case (Some x)
      with const have x: "x = tars" by blast
      note nc = next_chunk_eq [OF less.prems(1) ch, of tars]
      show ?thesis
      proof (cases "cur < tars")
        case False
        with True Some x nc have "rebuild_chunks H cm hr tams chunk cur t tot evs = ?past"
          by (subst rebuild_chunks.simps) (simp add: mr_is_empty_def mr_word_size_def)
        with past False show ?thesis
          by simp
      next
        case ct: True
        let ?d = "min tars (cur + chunk)"
        have cd: "cur < ?d" using ct ch by simp
        have dtop: "?d \<le> ?b + sum_list (map o_size os)"
          using tp by simp
        from chunk_counts [OF lay pos _ less.prems(1) cd dtop, of tams] bnd
        obtain w es where
          l: "live_obj_loop H tams (cur, ?d)
                (LiveObjIterator H tams (cur, ?d) (block_start H cur)) 0 [] = Some (w, es)"
          and e: "counted_words os ?b tams cur + w = counted_words os ?b tams ?d"
          by blast
        have r: "rebuild_rem_set_in_region H tams tars hr (cur, ?d) = Some (w * HeapWordSize, es)"
          by (rule region_chunk_not_humongous [OF nh]) (simp add: mr_start_def l)
        have ne: "\<not> mr_is_empty (cur, ?d)"
          using cd by (simp add: mr_is_empty_def mr_word_size_def min_def)
        have "counted_words os ?b tams ?d = counted_words os ?b tams (cur + chunk)"
        proof (cases "cur + chunk \<le> tars")
          case True
          then show ?thesis by (simp add: min_def)
        next
          case False
          then have "?d = tars" by simp
          with all [of tars] all [of "cur + chunk"] tt False show ?thesis
            by simp
        qed
        with e have "counted_words os ?b tams cur + w = counted_words os ?b tams (cur + chunk)"
          by simp
        then have "(counted_words os ?b tams cur + w) * HeapWordSize =
                     counted_words os ?b tams (cur + chunk) * HeapWordSize"
          by simp
        with less.prems(2)
        have inv': "tot + w * HeapWordSize =
                      counted_words os ?b tams (cur + chunk) * HeapWordSize"
          by (simp only: add_mult_distrib)
        show ?thesis
        proof (cases "cm_has_aborted cm (t + 1)")
          case ab: True
          with True Some x nc ct ne r
          have "rebuild_chunks H cm hr tams chunk cur t tot evs =
            Some \<lparr>rr_return = True, rr_exit = AbortedAfterChunk,
                  rr_total_marked_bytes = tot + w * HeapWordSize,
                  rr_final_tars = cm_top_at_rebuild_start cm (t + 1) (rb_hrm_index hr),
                  rr_events = evs @ es\<rparr>"
            by (subst rebuild_chunks.simps) (simp add: Let_def)
          moreover have "\<exists>t'. cm_has_aborted cm t'
                 \<or> cm_top_at_rebuild_start cm t' (rb_hrm_index hr) \<noteq> Some tars"
            using ab by (intro exI [where x = "t + 1"]) simp
          ultimately show ?thesis
            by simp
        next
          case False
          with True Some x nc ct ne r
          have "rebuild_chunks H cm hr tams chunk cur t tot evs =
                  rebuild_chunks H cm hr tams chunk (cur + chunk) (t + 1)
                    (tot + w * HeapWordSize) (evs @ es)"
            by (subst rebuild_chunks.simps) (simp add: Let_def)
          moreover have "rb_end hr - (cur + chunk) < rb_end hr - cur"
            using True ch by simp
          moreover have "?b \<le> cur + chunk"
            using less.prems(1) by simp
          ultimately show ?thesis
            using less.hyps [of "cur + chunk" "tot + w * HeapWordSize" "t + 1" "evs @ es"] inv'
            by simp
        qed
      qed
    qed
  qed
qed


lemma rebuild_chunks_humongous:
  assumes hum: "isHumongous hr"
      and ch: "0 < chunk"
      and edge: "tams = rb_bottom hr \<or> tams = tars"
      and bt: "rb_bottom hr \<le> tams"
      and tt: "tams \<le> tars"
      and te: "tars \<le> rb_end hr"
      and const: "\<forall>t x. cm_top_at_rebuild_start cm t (rb_hrm_index hr) = Some x \<longrightarrow> x = tars"
      and cur: "rb_bottom hr \<le> cur"
      and inv: "tot = (if is_humongous_live H (rb_humongous_start_bottom hr) tams tars
                          \<and> tams \<noteq> rb_bottom hr
                       then (min cur tars - rb_bottom hr) * HeapWordSize else 0)"
  shows "(\<forall>res. rebuild_chunks H cm hr tams chunk cur t tot evs = Some res
              \<and> rr_exit res = PastLoop \<longrightarrow>
              rr_total_marked_bytes res =
                (if isMarked H (rb_humongous_start_bottom hr)
                 then (tams - rb_bottom hr) * HeapWordSize else 0))
       \<and> ((\<forall>t'. \<not> cm_has_aborted cm t'
                 \<and> cm_top_at_rebuild_start cm t' (rb_hrm_index hr) = Some tars) \<longrightarrow>
            (\<exists>res. rebuild_chunks H cm hr tams chunk cur t tot evs = Some res
                  \<and> rr_exit res = PastLoop \<and> rr_final_tars res = Some tars
                  \<and> \<not> rr_return res))"
  using cur inv
proof (induction "rb_end hr - cur" arbitrary: cur t tot evs rule: less_induct)
  case less
  let ?b = "rb_bottom hr"
  let ?live = "is_humongous_live H (rb_humongous_start_bottom hr) tams tars"
  let ?exp = "if isMarked H (rb_humongous_start_bottom hr) then (tams - ?b) * HeapWordSize else 0"
  let ?goal = "\<lambda>r. (\<forall>res. r = Some res \<and> rr_exit res = PastLoop \<longrightarrow>
              rr_total_marked_bytes res = ?exp)
       \<and> ((\<forall>t'. \<not> cm_has_aborted cm t'
                 \<and> cm_top_at_rebuild_start cm t' (rb_hrm_index hr) = Some tars) \<longrightarrow>
            (\<exists>res. r = Some res \<and> rr_exit res = PastLoop \<and> rr_final_tars res = Some tars
                  \<and> \<not> rr_return res))"
  let ?past = "Some \<lparr>rr_return = cm_has_aborted cm t, rr_exit = PastLoop,
                       rr_total_marked_bytes = tot,
                       rr_final_tars = cm_top_at_rebuild_start cm t (rb_hrm_index hr),
                       rr_events = evs\<rparr>"
  have final: "tot = ?exp" if "tars \<le> cur"
    using that less.prems(2) edge tt by (auto simp: is_humongous_live_def min_def)
  have past: "?goal ?past" if "tars \<le> cur"
    using final [OF that] by simp
  show ?case
  proof (cases "cur < rb_end hr")
    case False
    then have "rebuild_chunks H cm hr tams chunk cur t tot evs = ?past"
      by (subst rebuild_chunks.simps) simp
    moreover from False te have "tars \<le> cur" by simp
    ultimately show ?thesis
      using past by simp
  next
    case True
    show ?thesis
    proof (cases "cm_top_at_rebuild_start cm t (rb_hrm_index hr)")
      case None
      with True have "rebuild_chunks H cm hr tams chunk cur t tot evs =
           Some \<lparr>rr_return = False, rr_exit = EagerlyReclaimed, rr_total_marked_bytes = tot,
                 rr_final_tars = None, rr_events = evs\<rparr>"
        by (subst rebuild_chunks.simps) simp
      moreover have "\<exists>t'. cm_has_aborted cm t'
                 \<or> cm_top_at_rebuild_start cm t' (rb_hrm_index hr) \<noteq> Some tars"
        using None by (intro exI [where x = t]) simp
      ultimately show ?thesis
        by simp
    next
      case (Some x)
      with const have x: "x = tars" by blast
      note nc = next_chunk_eq [OF less.prems(1) ch, of tars]
      show ?thesis
      proof (cases "cur < tars")
        case False
        with True Some x nc have "rebuild_chunks H cm hr tams chunk cur t tot evs = ?past"
          by (subst rebuild_chunks.simps) (simp add: mr_is_empty_def mr_word_size_def)
        with past False show ?thesis
          by simp
      next
        case ct: True
        let ?d = "min tars (cur + chunk)"
        let ?mb = "if ?live \<and> tams \<noteq> ?b then (?d - cur) * HeapWordSize else 0"
        let ?es = "if ?live then [OopIterateIn (rb_humongous_start_bottom hr) (cur, ?d)] else []"
        have r: "rebuild_rem_set_in_region H tams tars hr (cur, ?d) = Some (?mb, ?es)"
          using hum
          by (simp add: rebuild_rem_set_in_region_def Let_def mr_byte_size_def mr_word_size_def)
        have ne: "\<not> mr_is_empty (cur, ?d)"
          using ct ch by (simp add: mr_is_empty_def mr_word_size_def min_def)
        have "(min cur tars - ?b) + (?d - cur) = min (cur + chunk) tars - ?b"
          using ct less.prems(1) by (simp add: min_def)
        then have "(min cur tars - ?b) * HeapWordSize + (?d - cur) * HeapWordSize =
                     (min (cur + chunk) tars - ?b) * HeapWordSize"
          by (simp only: add_mult_distrib [symmetric])
        with less.prems(2)
        have inv': "tot + ?mb = (if ?live \<and> tams \<noteq> ?b
                       then (min (cur + chunk) tars - ?b) * HeapWordSize else 0)"
          by simp
        show ?thesis
        proof (cases "cm_has_aborted cm (t + 1)")
          case ab: True
          with True Some x nc ct ne r
          have "rebuild_chunks H cm hr tams chunk cur t tot evs =
            Some \<lparr>rr_return = True, rr_exit = AbortedAfterChunk,
                  rr_total_marked_bytes = tot + ?mb,
                  rr_final_tars = cm_top_at_rebuild_start cm (t + 1) (rb_hrm_index hr),
                  rr_events = evs @ ?es\<rparr>"
            by (subst rebuild_chunks.simps) (simp add: Let_def)
          moreover have "\<exists>t'. cm_has_aborted cm t'
                 \<or> cm_top_at_rebuild_start cm t' (rb_hrm_index hr) \<noteq> Some tars"
            using ab by (intro exI [where x = "t + 1"]) simp
          ultimately show ?thesis
            by simp
        next
          case False
          with True Some x nc ct ne r
          have "rebuild_chunks H cm hr tams chunk cur t tot evs =
                  rebuild_chunks H cm hr tams chunk (cur + chunk) (t + 1) (tot + ?mb) (evs @ ?es)"
            by (subst rebuild_chunks.simps) (simp add: Let_def)
          moreover have "rb_end hr - (cur + chunk) < rb_end hr - cur"
            using True ch by simp
          moreover have "?b \<le> cur + chunk"
            using less.prems(1) by simp
          ultimately show ?thesis
            using less.hyps [of "cur + chunk" "tot + ?mb" "t + 1" "evs @ ?es"] inv'
            by simp
        qed
      qed
    qed
  qed
qed


lemma humongous_marked_words_wf:
  assumes "rebuild_wf H os hr tars" and "isHumongous hr"
  shows "humongous_marked_words H hr =
           (if isMarked H (rb_humongous_start_bottom hr)
            then rb_next_top_at_mark_start hr - rb_bottom hr else 0)"
  using assms
  by (auto simp: rebuild_wf_def humongous_marked_words_def Let_def mr_intersection_def
                 MemRegion_sz_def mr_word_size_def mr_start_def mr_end_def max_def min_def)

text \<open>
  C7. Let the region be well formed for the rebuild (\<open>rebuild_wf\<close>), the chunk size at
  least one word, and TARS the only value \<^verbatim>\<open>top_at_rebuild_start\<close> reports for the
  region while it is not NULL. \<^verbatim>\<open>next_marked_bytes\<close> is what marking recorded, counted
  from the heap: the bytes of the marked objects below TAMS. Then whenever
  \<^verbatim>\<open>doHeapRegion\<close> gets past its loop (no early return for an abort or an eager
  reclaim) with TARS not NULL, the \<open>total_marked_bytes\<close> it has summed over the chunks
  from objects below TAMS equals the region's \<^verbatim>\<open>next_marked_bytes\<close>. And when the
  marking never aborts and the region is never reclaimed, \<^verbatim>\<open>doHeapRegion\<close> does
  return, past its loop, with that total.
\<close>

theorem C7_rebuild_total_is_next_marked_bytes:
  assumes "rebuild_wf H os hr tars"
      and "0 < G1RebuildRemSetChunkSize div HeapWordSize"
      and "\<forall>t x. cm_top_at_rebuild_start cm t (rb_hrm_index hr) = Some x \<longrightarrow> x = tars"
  shows "(\<forall>res. rebuild_doHeapRegion G1RebuildRemSetChunkSize H cm hr = Some res
              \<and> rr_exit res = PastLoop \<and> rr_final_tars res \<noteq> None \<longrightarrow>
              rr_total_marked_bytes res = next_marked_bytes H os hr)
       \<and> ((\<forall>t. \<not> cm_has_aborted cm t
                \<and> cm_top_at_rebuild_start cm t (rb_hrm_index hr) = Some tars) \<longrightarrow>
            (\<exists>res. rebuild_doHeapRegion G1RebuildRemSetChunkSize H cm hr = Some res
                  \<and> rr_exit res = PastLoop \<and> rr_final_tars res = Some tars
                  \<and> \<not> rr_return res
                  \<and> rr_total_marked_bytes res = next_marked_bytes H os hr))"
proof -
  let ?b = "rb_bottom hr"
  let ?tams = "rb_next_top_at_mark_start hr"
  let ?chunk = "G1RebuildRemSetChunkSize div HeapWordSize"
  let ?run = "rebuild_chunks H cm hr ?tams ?chunk ?b 0 0 []"
  from assms(1) have bt: "?b \<le> ?tams" and tt: "?tams \<le> tars" and te: "tars \<le> rb_end hr"
    by (simp_all add: rebuild_wf_def)
  have loop: "(\<forall>res. ?run = Some res \<and> rr_exit res = PastLoop \<longrightarrow>
              rr_total_marked_bytes res = next_marked_bytes H os hr)
       \<and> ((\<forall>t'. \<not> cm_has_aborted cm t'
                 \<and> cm_top_at_rebuild_start cm t' (rb_hrm_index hr) = Some tars) \<longrightarrow>
            (\<exists>res. ?run = Some res \<and> rr_exit res = PastLoop \<and> rr_final_tars res = Some tars
                  \<and> \<not> rr_return res))"
  proof (cases "isHumongous hr")
    case True
    with assms(1) have edge: "?tams = ?b \<or> ?tams = tars"
      by (simp add: rebuild_wf_def)
    have inv: "0 = (if is_humongous_live H (rb_humongous_start_bottom hr) ?tams tars
                          \<and> ?tams \<noteq> ?b
                       then (min ?b tars - ?b) * HeapWordSize else 0)"
      using bt tt by (simp add: min_def)
    have "next_marked_bytes H os hr =
            (if isMarked H (rb_humongous_start_bottom hr)
             then (?tams - ?b) * HeapWordSize else 0)"
      using True humongous_marked_words_wf [OF assms(1) True]
      by (simp add: next_marked_bytes_def)
    with rebuild_chunks_humongous [OF True assms(2) edge bt tt te assms(3) order_refl inv,
           where t = 0 and evs = "[]"]
    show ?thesis
      by simp
  next
    case False
    with assms(1) have lay: "laid_out H os ?b" and pos: "list_all (\<lambda>ob. 0 < o_size ob) os"
      and bnd: "boundary os ?b ?tams" and tp: "tars \<le> ?b + sum_list (map o_size os)"
      by (simp_all add: rebuild_wf_def)
    have inv: "0 = counted_words os ?b ?tams ?b * HeapWordSize"
      by (simp add: counted_words_zero)
    have "next_marked_bytes H os hr = marked_words os ?b ?tams * HeapWordSize"
      using False by (simp add: next_marked_bytes_def)
    with rebuild_chunks_counts [OF lay pos bnd tt tp te False assms(2,3) order_refl inv,
           where t = 0 and evs = "[]"]
    show ?thesis
      by simp
  qed
  show ?thesis
  proof (cases "cm_has_aborted cm 0")
    case True
    then have "rebuild_doHeapRegion G1RebuildRemSetChunkSize H cm hr =
        Some \<lparr>rr_return = True, rr_exit = AbortedAtEntry, rr_total_marked_bytes = 0,
              rr_final_tars = cm_top_at_rebuild_start cm 0 (rb_hrm_index hr), rr_events = []\<rparr>"
      by (simp add: rebuild_doHeapRegion_def)
    moreover have "\<exists>t. cm_has_aborted cm t
                 \<or> cm_top_at_rebuild_start cm t (rb_hrm_index hr) \<noteq> Some tars"
      using True by (intro exI [where x = 0]) simp
    ultimately show ?thesis
      by simp
  next
    case False
    then have "rebuild_doHeapRegion G1RebuildRemSetChunkSize H cm hr = ?run"
      by (simp add: rebuild_doHeapRegion_def Let_def)
    with loop show ?thesis
      by auto
  qed
qed

theorem C7_witness:
  "(\<exists>res. rebuild_doHeapRegion 32 ex_rebuild_heap (ex_cm 17) ex_old_region = Some res
       \<and> rr_exit res = PastLoop \<and> rr_final_tars res = Some 17
       \<and> rr_total_marked_bytes res = 96)
   \<and> (\<exists>res. rebuild_doHeapRegion 32 (ex_humongous_heap True) (ex_cm 20) (ex_humongous_region 20)
               = Some res
       \<and> rr_exit res = PastLoop \<and> rr_final_tars res = Some 20
       \<and> rr_total_marked_bytes res = 160)
   \<and> (\<exists>res. rebuild_doHeapRegion 32 (ex_humongous_heap False) (ex_cm 20) (ex_humongous_region 0)
               = Some res
       \<and> rr_exit res = PastLoop \<and> rr_final_tars res = Some 20
       \<and> rr_total_marked_bytes res = 0)"
proof -
  have ch: "0 < (32 :: nat) div HeapWordSize"
    by (simp add: HeapWordSize_def)
  have const: "\<forall>t x. cm_top_at_rebuild_start (ex_cm tars) t idx = Some x \<longrightarrow> x = tars" for tars idx
    by (simp add: ex_cm_def)
  have never: "\<forall>t. \<not> cm_has_aborted (ex_cm tars) t
                \<and> cm_top_at_rebuild_start (ex_cm tars) t idx = Some tars" for tars idx
    by (simp add: ex_cm_def)
  have wf: "rebuild_wf ex_rebuild_heap ex_objs ex_old_region 17"
    by (auto simp: rebuild_wf_def ex_rebuild_heap_def ex_objs_def ex_old_region_def isHumongous_def)
  have n1: "next_marked_bytes ex_rebuild_heap ex_objs ex_old_region = 96"
    by (simp add: next_marked_bytes_def ex_objs_def ex_old_region_def isHumongous_def
                  HeapWordSize_def)
  have wf2: "rebuild_wf (ex_humongous_heap True) [] (ex_humongous_region 20) 20"
    by (simp add: rebuild_wf_def ex_humongous_heap_def ex_humongous_region_def isHumongous_def)
  have n2: "next_marked_bytes (ex_humongous_heap True) [] (ex_humongous_region 20) = 160"
    by (simp add: next_marked_bytes_def humongous_marked_words_def ex_humongous_heap_def
                  ex_humongous_region_def isHumongous_def HeapWordSize_def Let_def
                  mr_intersection_def MemRegion_sz_def mr_word_size_def mr_start_def mr_end_def)
  have wf3: "rebuild_wf (ex_humongous_heap False) [] (ex_humongous_region 0) 20"
    by (simp add: rebuild_wf_def ex_humongous_heap_def ex_humongous_region_def isHumongous_def)
  have n3: "next_marked_bytes (ex_humongous_heap False) [] (ex_humongous_region 0) = 0"
    by (simp add: next_marked_bytes_def humongous_marked_words_def ex_humongous_heap_def
                  ex_humongous_region_def isHumongous_def HeapWordSize_def Let_def)
  from C7_rebuild_total_is_next_marked_bytes [OF wf ch const] never [of 17]
  have w1: "\<exists>res. rebuild_doHeapRegion 32 ex_rebuild_heap (ex_cm 17) ex_old_region = Some res
       \<and> rr_exit res = PastLoop \<and> rr_final_tars res = Some 17
       \<and> rr_total_marked_bytes res = 96"
    unfolding n1 by blast
  from C7_rebuild_total_is_next_marked_bytes [OF wf2 ch const] never [of 20]
  have w2: "\<exists>res. rebuild_doHeapRegion 32 (ex_humongous_heap True) (ex_cm 20) (ex_humongous_region 20)
               = Some res
       \<and> rr_exit res = PastLoop \<and> rr_final_tars res = Some 20
       \<and> rr_total_marked_bytes res = 160"
    unfolding n2 by blast
  from C7_rebuild_total_is_next_marked_bytes [OF wf3 ch const] never [of 20]
  have w3: "\<exists>res. rebuild_doHeapRegion 32 (ex_humongous_heap False) (ex_cm 20) (ex_humongous_region 0)
               = Some res
       \<and> rr_exit res = PastLoop \<and> rr_final_tars res = Some 20
       \<and> rr_total_marked_bytes res = 0"
    unfolding n3 by blast
  from w1 w2 w3 show ?thesis
    by (intro conjI)
qed

end
